theory Spec2Isabelle
  imports Complex_Main "HOL-Library.Multiset"
begin

section \<open>Python and numpy conventions\<close>

text \<open>
  The development embeds \<^verbatim>\<open>ase/neighborlist.py\<close>. Exceptions are values of
  type \<open>error\<close>; a function that may raise returns \<open>error + 'a\<close> with \<open>Inl\<close> the
  exception. Atom indices, bin indices and shifts are Python integers (\<open>int\<close>).
\<close>

datatype error = ValueError | IndexError | AttributeError | AssertionError | ZeroDivisionError

text \<open>Sequencing of computations that may raise.\<close>

definition bind :: "error + 'a \<Rightarrow> ('a \<Rightarrow> error + 'b) \<Rightarrow> error + 'b" where
  "bind m f = (case m of Inl e \<Rightarrow> Inl e | Inr x \<Rightarrow> f x)"

text \<open>Python indexing of a sequence of length \<open>n\<close>: a negative index counts from the end.\<close>

definition py_index :: "nat \<Rightarrow> int \<Rightarrow> nat option" where
  "py_index n k =
     (if 0 \<le> k \<and> k < int n then Some (nat k)
      else if - int n \<le> k \<and> k < 0 then Some (nat (k + int n))
      else None)"

text \<open>\<^verbatim>\<open>xs[k]\<close> and \<^verbatim>\<open>xs[k] = v\<close> for one integer index.\<close>

definition get_item :: "'a list \<Rightarrow> int \<Rightarrow> error + 'a" where
  "get_item xs k = (case py_index (length xs) k of None \<Rightarrow> Inl IndexError | Some p \<Rightarrow> Inr (xs ! p))"

definition set_item :: "'a list \<Rightarrow> int \<Rightarrow> 'a \<Rightarrow> error + 'a list" where
  "set_item xs k v = (case py_index (length xs) k of None \<Rightarrow> Inl IndexError | Some p \<Rightarrow> Inr (xs[p := v]))"

text \<open>\<^verbatim>\<open>xs[ks]\<close> and \<^verbatim>\<open>xs[ks] = vs\<close> for an integer index array (given here as
  the list of index/value pairs, assigned in order).\<close>

fun take_items :: "'a list \<Rightarrow> int list \<Rightarrow> error + 'a list" where
  "take_items xs [] = Inr []"
| "take_items xs (k # ks) =
     bind (get_item xs k) (\<lambda>v. bind (take_items xs ks) (\<lambda>vs. Inr (v # vs)))"

fun set_items :: "'a list \<Rightarrow> (int \<times> 'a) list \<Rightarrow> error + 'a list" where
  "set_items xs [] = Inr xs"
| "set_items xs ((k, v) # kvs) = bind (set_item xs k v) (\<lambda>ys. set_items ys kvs)"

text \<open>\<^verbatim>\<open>xs[m]\<close> for a boolean mask of the same length.\<close>

definition mask_select :: "bool list \<Rightarrow> 'a list \<Rightarrow> 'a list" where
  "mask_select m xs = map snd (filter fst (zip m xs))"

section \<open>first\_neighbors\<close>

text \<open>\<^verbatim>\<open>m = i[:-1] != i[1:]\<close> followed by \<^verbatim>\<open>s[i[1:][m]] = (np.arange(len(m))+1)[m]\<close>:
  the index/value pairs of that assignment.\<close>

definition run_starts :: "int list \<Rightarrow> (int \<times> int) list" where
  "run_starts i = map (\<lambda>p. (i ! Suc p, int p + 1)) (filter (\<lambda>p. i ! p \<noteq> i ! Suc p) [0..<length i - 1])"

text \<open>One round of the loop body \<^verbatim>\<open>s[m] = s[np.arange(nat+1)[m]+1]\<close> with
  \<^verbatim>\<open>m = s == -1\<close>; the right-hand side is read before anything is written.\<close>

definition fill_step :: "int list \<Rightarrow> int list" where
  "fill_step s = map (\<lambda>k. if s ! k = -1 then s ! Suc k else s ! k) [0..<length s]"

lemma fill_step_measure:
  assumes "- 1 \<in> set s" and "last s \<noteq> - 1"
  shows "card {k. k < length (fill_step s) \<and> fill_step s ! k = - 1} < card {k. k < length s \<and> s ! k = - 1}"
proof -
  let ?A = "{k. k < length s \<and> s ! k = - 1}"
  let ?B = "{k. k < length (fill_step s) \<and> fill_step s ! k = - 1}"
  have fin: "finite ?A" by simp
  from assms(1) have ne: "?A \<noteq> {}" by (auto simp: in_set_conv_nth)
  define k where "k = Max ?A"
  have kA: "k \<in> ?A" unfolding k_def using fin ne by (rule Max_in)
  have sne: "s \<noteq> []" using assms(1) by auto
  have "k \<noteq> length s - 1" using kA assms(2) sne by (auto simp: last_conv_nth)
  with kA have k1: "Suc k < length s" by auto
  have "Suc k \<notin> ?A"
  proof
    assume "Suc k \<in> ?A"
    then have "Suc k \<le> k" unfolding k_def using fin by (intro Max_ge) auto
    then show False by simp
  qed
  with k1 have "s ! Suc k \<noteq> - 1" by simp
  with kA have "k \<notin> ?B" by (simp add: fill_step_def)
  moreover have "?B \<subseteq> ?A" by (auto simp: fill_step_def split: if_splits)
  ultimately have "?B \<subset> ?A" using kA by blast
  then show ?thesis using fin by (rule psubset_card_mono[rotated])
qed

text \<open>The loop \<^verbatim>\<open>while m.any()\<close>. When the last entry is \<open>-1\<close> the index
  \<^verbatim>\<open>nat+1\<close> is read, which raises.\<close>

function backfill :: "int list \<Rightarrow> error + int list" where
  "backfill s =
     (if - 1 \<notin> set s then Inr s
      else if last s = - 1 then Inl IndexError
      else backfill (fill_step s))"
  by pat_completeness auto
termination
  by (relation "measure (\<lambda>s. card {k. k < length s \<and> s ! k = - 1})")
    (use fill_step_measure in auto)

definition first_neighbors :: "nat \<Rightarrow> int list \<Rightarrow> error + int list" where
  "first_neighbors natoms i =
     (if length i = 0 then Inr (replicate (natoms + 1) 0)
      else
        bind (set_item (replicate (natoms + 1) (- 1)) (i ! 0) 0) (\<lambda>s.
        bind (set_item s (- 1) (int (length i))) (\<lambda>s.
        bind (set_items s (run_starts i)) (\<lambda>s.
        backfill s))))"

section \<open>Configurations\<close>

text \<open>
  Floating-point numbers are modelled by real numbers: rounding, infinities and NaN are
  outside the model. Three-component arrays are triples; a float array of shape (N, 3) is
  a list of triples. The cell matrix is the triple of its rows.
\<close>

type_synonym vec3 = "real \<times> real \<times> real"
type_synonym ivec3 = "int \<times> int \<times> int"
type_synonym bvec3 = "bool \<times> bool \<times> bool"
type_synonym mat3 = "vec3 \<times> vec3 \<times> vec3"

fun vadd :: "vec3 \<Rightarrow> vec3 \<Rightarrow> vec3" where
  "vadd (a, b, c) (d, e, f) = (a + d, b + e, c + f)"

fun vsub :: "vec3 \<Rightarrow> vec3 \<Rightarrow> vec3" where
  "vsub (a, b, c) (d, e, f) = (a - d, b - e, c - f)"

fun dot3 :: "vec3 \<Rightarrow> vec3 \<Rightarrow> real" where
  "dot3 (a, b, c) (d, e, f) = a * d + b * e + c * f"

text \<open>\<^verbatim>\<open>np.dot(v, m)\<close> for a row vector and a matrix.\<close>

fun vecmat :: "vec3 \<Rightarrow> mat3 \<Rightarrow> vec3" where
  "vecmat (x, y, z) ((a, b, c), (d, e, f), (g, h, k)) =
     (x * a + y * d + z * g, x * b + y * e + z * h, x * c + y * f + z * k)"

fun of_ivec :: "ivec3 \<Rightarrow> vec3" where
  "of_ivec (x, y, z) = (of_int x, of_int y, of_int z)"

fun iadd :: "ivec3 \<Rightarrow> ivec3 \<Rightarrow> ivec3" where
  "iadd (a, b, c) (d, e, f) = (a + d, b + e, c + f)"

fun isub :: "ivec3 \<Rightarrow> ivec3 \<Rightarrow> ivec3" where
  "isub (a, b, c) (d, e, f) = (a - d, b - e, c - f)"

fun ineg :: "ivec3 \<Rightarrow> ivec3" where
  "ineg (a, b, c) = (- a, - b, - c)"

text \<open>The rows of the transposed matrix (\<^verbatim>\<open>m.T\<close>).\<close>

fun transpose3 :: "mat3 \<Rightarrow> mat3" where
  "transpose3 ((a, b, c), (d, e, f), (g, h, k)) = ((a, d, g), (b, e, h), (c, f, k))"

text \<open>\<^verbatim>\<open>np.linalg.norm\<close> of a vector, and \<^verbatim>\<open>astype(int)\<close> of a float (truncation
  towards zero).\<close>

definition norm3 :: "vec3 \<Rightarrow> real" where
  "norm3 v = sqrt (dot3 v v)"

definition trunc :: "real \<Rightarrow> int" where
  "trunc x = (if 0 \<le> x then \<lfloor>x\<rfloor> else \<lceil>x\<rceil>)"

text \<open>
  The class \<^verbatim>\<open>Atoms\<close> is not part of the sources under study; a configuration is the
  record of the attributes that \<^verbatim>\<open>neighborlist.py\<close> reads. \<^verbatim>\<open>len(a)\<close> is the number of
  positions.
\<close>

record atoms =
  positions :: "vec3 list"
  cell :: mat3
  pbc :: bvec3
  numbers :: "int list"

text \<open>
  Routines and tables that the module uses and that are defined elsewhere are
  parameters of the model: \<^verbatim>\<open>np.linalg.pinv\<close>, the table \<^verbatim>\<open>ase.data.atomic_numbers\<close>
  and the computation of fractional coordinates.
\<close>

record ext =
  pinv :: "mat3 \<Rightarrow> mat3"
  frac :: "mat3 \<Rightarrow> vec3 \<Rightarrow> vec3"
  atomic_numbers :: "string \<Rightarrow> int option"

text \<open>Modelled from the spec: \<^verbatim>\<open>Atoms.get_scaled_positions(wrap=False)\<close>, which is not in
  the sources, assigns every particle a fractional (scaled) coordinate; the coordinate of
  one particle is computed from the cell and its position by the parameter \<open>frac\<close>.\<close>

definition get_scaled_positions :: "ext \<Rightarrow> atoms \<Rightarrow> vec3 list" where
  "get_scaled_positions E a = map (frac E (cell a)) (positions a)"

section \<open>Cutoff specifications\<close>

text \<open>A species is named by its atomic number or by a symbol. The pair-cutoff dictionary
  is the list of its items in iteration order.\<close>

datatype species = Num int | Sym string

datatype cutoff =
    Scalar real
  | PairDict "((species \<times> species) \<times> real) list"
  | PerAtom "real list"

text \<open>\<^verbatim>\<open>np.max\<close> of a sequence raises on an empty one.\<close>

definition np_max :: "'a::linorder list \<Rightarrow> error + 'a" where
  "np_max xs = (if xs = [] then Inl ValueError else Inr (Max (set xs)))"

definition max_cutoff_of :: "cutoff \<Rightarrow> error + real" where
  "max_cutoff_of c =
     (case c of
        PairDict d \<Rightarrow> np_max (map snd d)
      | Scalar x \<Rightarrow> Inr x
      | PerAtom rs \<Rightarrow> bind (np_max rs) (\<lambda>m. Inr (2 * m)))"

text \<open>\<^verbatim>\<open>try: el = atomic_numbers[el] except: pass\<close>: a known symbol becomes its number,
  anything else is left as it is.\<close>

fun resolve :: "ext \<Rightarrow> species \<Rightarrow> species" where
  "resolve E (Num z) = Num z"
| "resolve E (Sym s) = (case atomic_numbers E s of Some z \<Rightarrow> Num z | None \<Rightarrow> Sym s)"

text \<open>The mask of one dictionary item for the pair of atomic numbers \<open>(ni, nj)\<close>.\<close>

definition item_mask :: "species \<Rightarrow> species \<Rightarrow> int \<Rightarrow> int \<Rightarrow> bool" where
  "item_mask el1 el2 ni nj =
     (if el1 = el2 then Num ni = el1 \<and> Num nj = el2
      else (Num ni = el1 \<and> Num nj = el2) \<or> (Num ni = el2 \<and> Num nj = el1))"

text \<open>One entry of \<^verbatim>\<open>per_pair_cutoff_n\<close>: zero, overwritten by every item whose mask holds,
  in iteration order.\<close>

definition per_pair_cutoff :: "ext \<Rightarrow> ((species \<times> species) \<times> real) list \<Rightarrow> int \<Rightarrow> int \<Rightarrow> real" where
  "per_pair_cutoff E d ni nj =
     fold (\<lambda>((el1, el2), c) v. if item_mask (resolve E el1) (resolve E el2) ni nj then c else v) d 0"

section \<open>The cell list\<close>

text \<open>Number of bins along one axis and the number of neighbouring bins to visit.\<close>

definition nbins_of :: "real \<Rightarrow> real \<Rightarrow> int" where
  "nbins_of face_dist max_cutoff = max (trunc (face_dist / max_cutoff)) 1"

definition nd_of :: "real \<Rightarrow> int \<Rightarrow> real \<Rightarrow> int" where
  "nd_of max_cutoff n face_dist = \<lceil>max_cutoff * of_int n / face_dist\<rceil>"

text \<open>Bin index and cell shift of a particle along one axis: \<^verbatim>\<open>np.divmod\<close> on a periodic
  axis, \<^verbatim>\<open>np.clip\<close> otherwise. The result is (cell shift, bin index).\<close>

definition wrap_bin :: "bool \<Rightarrow> int \<Rightarrow> int \<Rightarrow> int \<times> int" where
  "wrap_bin periodic n b = (if periodic then (b div n, b mod n) else (0, min (max b 0) (n - 1)))"

text \<open>Per particle: the cell shift and the scalar bin index.\<close>

definition bin_of :: "ivec3 \<Rightarrow> bvec3 \<Rightarrow> vec3 \<Rightarrow> ivec3 \<times> int" where
  "bin_of nbins_c p spos =
     (case (nbins_c, p, spos) of ((nx, ny, nz), (px, py, pz), (sx, sy, sz)) \<Rightarrow>
        let (cx, bx) = wrap_bin px nx \<lfloor>sx * of_int nx\<rfloor>;
            (cy, by) = wrap_bin py ny \<lfloor>sy * of_int ny\<rfloor>;
            (cz, bz) = wrap_bin pz nz \<lfloor>sz * of_int nz\<rfloor>
        in ((cx, cy, cz), bx + nx * (by + ny * bz)))"

text \<open>\<^verbatim>\<open>np.argsort\<close>: the positions of the keys in ascending key order. Among equal keys
  numpy's order is unspecified; the model takes the stable order.\<close>

definition argsort :: "int list \<Rightarrow> nat list" where
  "argsort ks = sort_key (\<lambda>p. ks ! p) [0..<length ks]"

text \<open>\<^verbatim>\<open>np.bincount(xs).max()\<close>: \<open>bincount\<close> refuses negative entries, and the maximum
  of an empty array raises.\<close>

definition bincount :: "int list \<Rightarrow> error + nat list" where
  "bincount xs =
     (if \<exists>x\<in>set xs. x < 0 then Inl ValueError
      else if xs = [] then Inr []
      else Inr (map (\<lambda>b. count_list xs (int b)) [0..<nat (Max (set xs)) + 1]))"

text \<open>The mask \<^verbatim>\<open>np.append([True], bin_index_i[:-1] != bin_index_i[1:])\<close>.\<close>

definition first_mask :: "int list \<Rightarrow> bool list" where
  "first_mask bs = True # map2 (\<lambda>x y. x \<noteq> y) (butlast bs) (tl bs)"

text \<open>\<^verbatim>\<open>bins_ba[rows, i] = vals\<close>.\<close>

fun set_column :: "int list list \<Rightarrow> nat \<Rightarrow> (int \<times> int) list \<Rightarrow> error + int list list" where
  "set_column bins_ba i [] = Inr bins_ba"
| "set_column bins_ba i ((b, v) # rest) =
     (case py_index (length bins_ba) b of
        None \<Rightarrow> Inl IndexError
      | Some r \<Rightarrow>
          if i < length (bins_ba ! r)
          then set_column (bins_ba[r := (bins_ba ! r)[i := v]]) i rest
          else Inl IndexError)"

text \<open>One round of the loop that fills the padded bin table: the first remaining atom of
  every bin goes to column \<open>i\<close>; a boolean mask of the wrong length raises.\<close>

definition bins_step ::
  "nat \<Rightarrow> int list list \<times> int list \<times> int list \<Rightarrow> error + int list list \<times> int list \<times> int list" where
  "bins_step i st =
     (case st of (bins_ba, atom_i, bin_index_i) \<Rightarrow>
        let m = first_mask bin_index_i in
        if length m \<noteq> length bin_index_i then Inl IndexError
        else
          bind (set_column bins_ba i (zip (mask_select m bin_index_i) (mask_select m atom_i)))
            (\<lambda>bins_ba'.
               let m' = map Not m in
               Inr (bins_ba', mask_select m' atom_i, mask_select m' bin_index_i)))"

fun bins_loop ::
  "nat list \<Rightarrow> int list list \<times> int list \<times> int list \<Rightarrow> error + int list list \<times> int list \<times> int list" where
  "bins_loop [] st = Inr st"
| "bins_loop (i # is) st = bind (bins_step i st) (bins_loop is)"

text \<open>Lines 171 to 204: the padded table \<open>bins_ba\<close> and \<open>max_nat_per_bin\<close>.\<close>

definition make_bins :: "nat \<Rightarrow> int list \<Rightarrow> error + int list list \<times> nat" where
  "make_bins nbins bin_index_i =
     (let i = argsort bin_index_i;
          atom_i = map int i;
          bin_sorted = map (\<lambda>p. bin_index_i ! p) i
      in bind (bincount bin_sorted) (\<lambda>counts.
         bind (np_max counts) (\<lambda>max_nat_per_bin.
         bind (bins_loop [0..<max_nat_per_bin]
                 (replicate nbins (replicate max_nat_per_bin (- 1)), atom_i, bin_sorted))
           (\<lambda>(bins_ba, atom_rest, bin_rest).
              if length atom_rest \<noteq> 0 then Inl AssertionError
              else if length bin_rest \<noteq> 0 then Inl AssertionError
              else Inr (bins_ba, max_nat_per_bin)))))"

text \<open>The Cartesian bin coordinates \<open>(bx, by, bz)\<close> in the order of the scalar bin index
  (\<^verbatim>\<open>np.meshgrid(..., indexing='ij')\<close> followed by \<^verbatim>\<open>ravel\<close>).\<close>

definition bin_coords :: "ivec3 \<Rightarrow> ivec3 list" where
  "bin_coords nbins_c =
     (case nbins_c of (nx, ny, nz) \<Rightarrow>
        concat (map (\<lambda>z. concat (map (\<lambda>y. map (\<lambda>x. (x, y, z)) [0..nx - 1]) [0..ny - 1])) [0..nz - 1]))"

text \<open>The candidate pairs of one bin offset \<open>(dx, dy, dz)\<close>: for every bin and every pair of
  slots, the two atoms and the shift of the wrapped neighbouring bin; pairs with a pad
  entry \<open>-1\<close> are dropped. A row is (first atom, second atom, shift).\<close>

definition offset_pairs ::
  "ivec3 \<Rightarrow> int list list \<Rightarrow> nat \<Rightarrow> ivec3 \<Rightarrow> (int \<times> int \<times> ivec3) list" where
  "offset_pairs nbins_c bins_ba max_nat d =
     (case (nbins_c, d) of ((nx, ny, nz), (dx, dy, dz)) \<Rightarrow>
        concat (map (\<lambda>(b, (bx, by, bz)).
          let sx = (bx + dx) div nx; bx1 = (bx + dx) mod nx;
              sy = (by + dy) div ny; by1 = (by + dy) mod ny;
              sz = (bz + dz) div nz; bz1 = (bz + dz) mod nz;
              b1 = bx1 + nx * (by1 + ny * bz1)
          in filter (\<lambda>(i, j, S). i \<noteq> - 1 \<and> j \<noteq> - 1)
               (concat (map (\<lambda>p. map (\<lambda>q. (bins_ba ! b ! p, bins_ba ! nat b1 ! q, (sx, sy, sz)))
                  [0..<max_nat]) [0..<max_nat])))
          (zip [0..<length bins_ba] (bin_coords nbins_c))))"

text \<open>The triple loop over the offsets; a block is appended only when it is not empty,
  and \<^verbatim>\<open>np.concatenate\<close> raises when there is no block at all.\<close>

definition offsets :: "ivec3 \<Rightarrow> ivec3 list" where
  "offsets nd =
     (case nd of (ndx, ndy, ndz) \<Rightarrow>
        concat (map (\<lambda>dz. concat (map (\<lambda>dy. map (\<lambda>dx. (dx, dy, dz)) [- ndx..ndx]) [- ndy..ndy])) [- ndz..ndz]))"

definition np_concatenate :: "'a list list \<Rightarrow> error + 'a list" where
  "np_concatenate blocks = (if blocks = [] then Inl ValueError else Inr (concat blocks))"

definition candidate_pairs ::
  "ivec3 \<Rightarrow> ivec3 \<Rightarrow> int list list \<Rightarrow> nat \<Rightarrow> error + (int \<times> int \<times> ivec3) list" where
  "candidate_pairs nbins_c nd bins_ba max_nat =
     np_concatenate (filter (\<lambda>blk. length blk > 0)
       (map (offset_pairs nbins_c bins_ba max_nat) (offsets nd)))"

section \<open>neighbor\_list\<close>

text \<open>
  The parallel arrays \<open>i_n\<close>, \<open>j_n\<close>, \<open>S_n\<close> (and later \<open>dr_nc\<close>, \<open>abs_dr_n\<close>) are kept as one
  list of rows; applying one boolean mask to all of them is a filter on the rows.
\<close>

type_synonym row = "int \<times> int \<times> ivec3 \<times> vec3 \<times> real"

text \<open>Lines 284 to 291: for every non-periodic direction keep the rows whose shift
  component in that direction is zero.\<close>

definition drop_crossing :: "bvec3 \<Rightarrow> (int \<times> int \<times> ivec3) list \<Rightarrow> (int \<times> int \<times> ivec3) list" where
  "drop_crossing p rows =
     (case p of (px, py, pz) \<Rightarrow>
        let r0 = (if \<not> px then filter (\<lambda>(i, j, (sx, sy, sz)). sx = 0) rows else rows);
            r1 = (if \<not> py then filter (\<lambda>(i, j, (sx, sy, sz)). sy = 0) r0 else r0);
            r2 = (if \<not> pz then filter (\<lambda>(i, j, (sx, sy, sz)). sz = 0) r1 else r1)
        in r2)"

text \<open>Lines 299 to 301: distance vector and distance of a candidate.\<close>

definition with_distance :: "atoms \<Rightarrow> int \<times> int \<times> ivec3 \<Rightarrow> row" where
  "with_distance a r =
     (case r of (i, j, S) \<Rightarrow>
        let dr = vadd (vsub (positions a ! nat j) (positions a ! nat i)) (vecmat (of_ivec S) (cell a))
        in (i, j, S, dr, sqrt (dot3 dr dr)))"

text \<open>Lines 312 to 344: the filter of the exact cutoff policy. Indexing the per-atom
  array with an atom index beyond its length raises.\<close>

definition cutoff_filter :: "ext \<Rightarrow> atoms \<Rightarrow> cutoff \<Rightarrow> row list \<Rightarrow> error + row list" where
  "cutoff_filter E a c rows =
     (case c of
        PairDict d \<Rightarrow>
          Inr (filter (\<lambda>(i, j, S, dr, dist).
                 dist < per_pair_cutoff E d (numbers a ! nat i) (numbers a ! nat j)) rows)
      | Scalar x \<Rightarrow> Inr rows
      | PerAtom rs \<Rightarrow>
          bind (take_items rs (map (\<lambda>(i, j, S, dr, dist). i) rows)) (\<lambda>ci.
          bind (take_items rs (map (\<lambda>(i, j, S, dr, dist). j) rows)) (\<lambda>cj.
            Inr (map fst (filter (\<lambda>((i, j, S, dr, dist), ri, rj). dist < ri + rj)
                   (zip rows (zip ci cj)))))))"

text \<open>The body of \<^verbatim>\<open>neighbor_list\<close> up to the assembly of the return value.\<close>

definition neighbor_rows :: "ext \<Rightarrow> atoms \<Rightarrow> cutoff \<Rightarrow> bool \<Rightarrow> error + row list" where
  "neighbor_rows E a c self_interaction =
     (case transpose3 (pinv E (cell a)) of (b1_c, b2_c, b3_c) \<Rightarrow>
      let fx = 1 / norm3 b1_c; fy = 1 / norm3 b2_c; fz = 1 / norm3 b3_c in
      bind (max_cutoff_of c) (\<lambda>max_cutoff.
      let nx = nbins_of fx max_cutoff; ny = nbins_of fy max_cutoff; nz = nbins_of fz max_cutoff;
          nbins_c = (nx, ny, nz);
          nbins = nx * ny * nz;
          nd = (nd_of max_cutoff nx fx, nd_of max_cutoff ny fy, nd_of max_cutoff nz fz);
          binned = map (bin_of nbins_c (pbc a)) (get_scaled_positions E a);
          cell_shift_ic = map fst binned;
          bin_index_i = map snd binned
      in
      bind (make_bins (nat nbins) bin_index_i) (\<lambda>(bins_ba, max_nat_per_bin).
      bind (candidate_pairs nbins_c nd bins_ba max_nat_per_bin) (\<lambda>cand.
      let shifted = map (\<lambda>(i, j, S).
                      (i, j, iadd S (isub (cell_shift_ic ! nat i) (cell_shift_ic ! nat j)))) cand;
          no_self = (if \<not> self_interaction
                     then filter (\<lambda>(i, j, S). \<not> (i = j \<and> S = (0, 0, 0))) shifted
                     else shifted);
          inside = drop_crossing (pbc a) no_self;
          sorted_rows = sort_key fst inside;
          rows = filter (\<lambda>(i, j, S, dr, dist). dist < max_cutoff)
                   (map (with_distance a) sorted_rows)
      in cutoff_filter E a c rows))))"

text \<open>The requested quantities: one column per character; an unknown character raises.
  The tuple of return values is the list of the columns.\<close>

datatype column =
    IntCol "int list"
  | ShiftCol "ivec3 list"
  | VecCol "vec3 list"
  | RealCol "real list"

definition quantity :: "row list \<Rightarrow> char \<Rightarrow> error + column" where
  "quantity rows q =
     (if q = CHR ''i'' then Inr (IntCol (map (\<lambda>(i, j, S, dr, dist). i) rows))
      else if q = CHR ''j'' then Inr (IntCol (map (\<lambda>(i, j, S, dr, dist). j) rows))
      else if q = CHR ''D'' then Inr (VecCol (map (\<lambda>(i, j, S, dr, dist). dr) rows))
      else if q = CHR ''d'' then Inr (RealCol (map (\<lambda>(i, j, S, dr, dist). dist) rows))
      else if q = CHR ''S'' then Inr (ShiftCol (map (\<lambda>(i, j, S, dr, dist). S) rows))
      else Inl ValueError)"

fun assemble :: "row list \<Rightarrow> string \<Rightarrow> error + column list" where
  "assemble rows [] = Inr []"
| "assemble rows (q # qs) =
     bind (quantity rows q) (\<lambda>col. bind (assemble rows qs) (\<lambda>cols. Inr (col # cols)))"

definition neighbor_list :: "ext \<Rightarrow> string \<Rightarrow> atoms \<Rightarrow> cutoff \<Rightarrow> bool \<Rightarrow> error + column list" where
  "neighbor_list E quantities a c self_interaction =
     bind (neighbor_rows E a c self_interaction) (\<lambda>rows. assemble rows quantities)"


section \<open>The class NeighborList\<close>

text \<open>
  An attribute that \<^verbatim>\<open>__init__\<close> does not create is \<open>None\<close> until \<^verbatim>\<open>build\<close> assigns it;
  reading it before raises \<^verbatim>\<open>AttributeError\<close>. A method returns the updated object (and
  its return value); when it raises, only the exception is kept.
\<close>

record neighborlist =
  cutoffs :: "real list"
  skin :: real
  sorted_nl :: bool
  self_interaction :: bool
  bothways :: bool
  nupdates :: nat
  nneighbors :: nat
  npbcneighbors :: nat
  pbc_nl :: "bvec3 option"
  cell_nl :: "mat3 option"
  positions_nl :: "vec3 list option"
  pair_first :: "int list option"
  pair_second :: "int list option"
  offset_vec :: "ivec3 list option"
  first_neigh :: "int list option"

definition NeighborList_init :: "real list \<Rightarrow> real \<Rightarrow> bool \<Rightarrow> bool \<Rightarrow> bool \<Rightarrow> neighborlist" where
  "NeighborList_init cutoffs_arg skin_arg sorted_arg self_interaction_arg bothways_arg =
     \<lparr> cutoffs = map (\<lambda>r. r + skin_arg) cutoffs_arg,
       skin = skin_arg,
       sorted_nl = sorted_arg,
       self_interaction = self_interaction_arg,
       bothways = bothways_arg,
       nupdates = 0,
       nneighbors = 0,
       npbcneighbors = 0,
       pbc_nl = None,
       cell_nl = None,
       positions_nl = None,
       pair_first = None,
       pair_second = None,
       offset_vec = None,
       first_neigh = None \<rparr>"

text \<open>Lines 468 to 475: the mask that keeps one of a pair and its mirror image.\<close>

fun half_mask :: "int \<times> int \<times> ivec3 \<Rightarrow> bool" where
  "half_mask (i, j, (sx, sy, sz)) =
     ((i \<le> j \<and> (sx = 0 \<and> sy = 0 \<and> sz = 0)) \<or>
      (sx > 0 \<or> (sx = 0 \<and> (sy > 0 \<or> (sy = 0 \<and> sz > 0)))))"

definition build :: "ext \<Rightarrow> neighborlist \<Rightarrow> atoms \<Rightarrow> error + neighborlist" where
  "build E self a =
     bind (neighbor_list E ''ijS'' a (PerAtom (cutoffs self)) (self_interaction self)) (\<lambda>cols.
       case cols of
         [IntCol first, IntCol second, ShiftCol offset] \<Rightarrow>
           let rows = zip first (zip second offset);
               halved = (if \<not> bothways self then filter half_mask rows else rows);
               ordered = (if sorted_nl self
                          then sort_key (\<lambda>(i, j, S). i * int (length halved) + j) halved
                          else halved)
           in bind (first_neighbors (length (positions a)) (map fst ordered)) (\<lambda>fn.
                Inr (self\<lparr> pbc_nl := Some (pbc a),
                           cell_nl := Some (cell a),
                           positions_nl := Some (positions a),
                           pair_first := Some (map fst ordered),
                           pair_second := Some (map (\<lambda>(i, j, S). j) ordered),
                           offset_vec := Some (map (\<lambda>(i, j, S). S) ordered),
                           first_neigh := Some fn,
                           nupdates := nupdates self + 1 \<rparr>))
       | _ \<Rightarrow> Inl ValueError)"

text \<open>\<^verbatim>\<open>((p - q)**2).sum(1).max()\<close> for two arrays of shape (N, 3) and (M, 3): numpy
  broadcasts when the lengths agree or one of them is 1 and raises otherwise; the maximum
  of an empty array raises.\<close>

definition sq_dist :: "vec3 \<Rightarrow> vec3 \<Rightarrow> real" where
  "sq_dist p q = (case vsub p q of (x, y, z) \<Rightarrow> x\<^sup>2 + y\<^sup>2 + z\<^sup>2)"

definition max_sq_displacement :: "vec3 list \<Rightarrow> vec3 list \<Rightarrow> error + real" where
  "max_sq_displacement ps qs =
     (if length ps = length qs then np_max (map2 sq_dist ps qs)
      else if length ps = 1 then np_max (map (sq_dist (ps ! 0)) qs)
      else if length qs = 1 then np_max (map (\<lambda>p. sq_dist p (qs ! 0)) ps)
      else Inl ValueError)"

fun any_differs :: "bvec3 \<Rightarrow> bvec3 \<Rightarrow> bool" where
  "any_differs (a, b, c) (d, e, f) = (a \<noteq> d \<or> b \<noteq> e \<or> c \<noteq> f)"

definition update :: "ext \<Rightarrow> neighborlist \<Rightarrow> atoms \<Rightarrow> error + neighborlist \<times> bool" where
  "update E self a =
     (if nupdates self = 0 then bind (build E self a) (\<lambda>self'. Inr (self', True))
      else
        (case pbc_nl self of None \<Rightarrow> Inl AttributeError | Some p \<Rightarrow>
        (if any_differs p (pbc a) then bind (build E self a) (\<lambda>self'. Inr (self', True))
         else
        (case cell_nl self of None \<Rightarrow> Inl AttributeError | Some c \<Rightarrow>
        (if c \<noteq> cell a then bind (build E self a) (\<lambda>self'. Inr (self', True))
         else
        (case positions_nl self of None \<Rightarrow> Inl AttributeError | Some ps \<Rightarrow>
        bind (max_sq_displacement ps (positions a)) (\<lambda>m.
          if m > (skin self)\<^sup>2 then bind (build E self a) (\<lambda>self'. Inr (self', True))
          else Inr (self, False))))))))"

text \<open>Python's \<^verbatim>\<open>xs[lo:hi]\<close>.\<close>

definition py_slice :: "'a list \<Rightarrow> int \<Rightarrow> int \<Rightarrow> 'a list" where
  "py_slice xs lo hi =
     (let n = int (length xs);
          l = (if lo < 0 then max (lo + n) 0 else min lo n);
          h = (if hi < 0 then max (hi + n) 0 else min hi n)
      in take (nat (h - l)) (drop (nat l) xs))"

definition get_neighbors :: "neighborlist \<Rightarrow> int \<Rightarrow> error + int list \<times> ivec3 list" where
  "get_neighbors self a =
     (case pair_second self of None \<Rightarrow> Inl AttributeError | Some second \<Rightarrow>
     (case first_neigh self of None \<Rightarrow> Inl AttributeError | Some fn \<Rightarrow>
      bind (get_item fn a) (\<lambda>lo.
      bind (get_item fn (a + 1)) (\<lambda>hi.
     (case offset_vec self of None \<Rightarrow> Inl AttributeError | Some offset \<Rightarrow>
      Inr (py_slice second lo hi, py_slice offset lo hi))))))"


section \<open>The class PrimitiveNeighborList\<close>

text \<open>The attributes carry the suffix \<open>_p\<close> to keep them apart from those of
  \<open>NeighborList\<close>.\<close>

record primitive =
  cutoffs_p :: "real list"
  skin_p :: real
  sorted_p :: bool
  self_interaction_p :: bool
  bothways_p :: bool
  nupdates_p :: nat
  use_scaled_positions_p :: bool
  nneighbors_p :: nat
  npbcneighbors_p :: nat
  pbc_p :: "bvec3 option"
  cell_p :: "mat3 option"
  coordinates_p :: "vec3 list option"
  neighbors_p :: "int list list option"
  displacements_p :: "ivec3 list list option"

definition PrimitiveNeighborList_init ::
  "real list \<Rightarrow> real \<Rightarrow> bool \<Rightarrow> bool \<Rightarrow> bool \<Rightarrow> bool \<Rightarrow> primitive" where
  "PrimitiveNeighborList_init cutoffs_arg skin_arg sorted_arg self_interaction_arg bothways_arg
      use_scaled_positions_arg =
     \<lparr> cutoffs_p = map (\<lambda>r. r + skin_arg) cutoffs_arg,
       skin_p = skin_arg,
       sorted_p = sorted_arg,
       self_interaction_p = self_interaction_arg,
       bothways_p = bothways_arg,
       nupdates_p = 0,
       use_scaled_positions_p = use_scaled_positions_arg,
       nneighbors_p = 0,
       npbcneighbors_p = 0,
       pbc_p = None,
       cell_p = None,
       coordinates_p = None,
       neighbors_p = None,
       displacements_p = None \<rparr>"

text \<open>\<^verbatim>\<open>x % 1.0\<close> and numpy's \<^verbatim>\<open>round\<close> (halves go to the even neighbour).\<close>

definition mod1 :: "real \<Rightarrow> real" where
  "mod1 x = x - of_int \<lfloor>x\<rfloor>"

definition np_round :: "real \<Rightarrow> int" where
  "np_round x =
     (let f = \<lfloor>x\<rfloor>; r = x - of_int f
      in if r < 1 / 2 then f else if r > 1 / 2 then f + 1 else if even f then f else f + 1)"

text \<open>Lines 626 to 634, for one axis: the number of periodic images to visit. With
  \<^verbatim>\<open>math.sqrt\<close> the quotient \<^verbatim>\<open>1 / sqrt(...)\<close> is a Python float division, which raises
  on a zero divisor.\<close>

definition axis_images :: "bool \<Rightarrow> vec3 \<Rightarrow> real \<Rightarrow> error + int" where
  "axis_images periodic v rcmax =
     (if periodic then
        (if sqrt (dot3 v v) = 0 then Inl ZeroDivisionError
         else Inr (trunc (2 * rcmax / (1 / sqrt (dot3 v v))) + 1))
      else Inr 0)"

fun wrap_scaled :: "bvec3 \<Rightarrow> vec3 \<Rightarrow> vec3" where
  "wrap_scaled (px, py, pz) (x, y, z) =
     (if px then mod1 x else x, if py then mod1 y else y, if pz then mod1 z else z)"

fun round_diff :: "vec3 \<Rightarrow> vec3 \<Rightarrow> ivec3" where
  "round_diff (a, b, c) (x, y, z) = (np_round (a - x), np_round (b - y), np_round (c - z))"

text \<open>The state of the search loop: \<open>nneighbors\<close>, \<open>npbcneighbors\<close>, \<open>neighbors\<close>,
  \<open>displacements\<close>.\<close>

type_synonym search = "nat \<times> nat \<times> int list list \<times> ivec3 list list"

text \<open>Lines 652 to 668: the body of the loop over the atoms for one image
  \<open>(n1, n2, n3)\<close>.\<close>

definition search_atom ::
  "primitive \<Rightarrow> mat3 \<Rightarrow> vec3 list \<Rightarrow> ivec3 list \<Rightarrow> ivec3 \<Rightarrow> search \<Rightarrow> nat \<Rightarrow> search" where
  "search_atom self cell0 positions0 offs n st a =
     (case st of (nn, npbc, nbrs, disps) \<Rightarrow>
        let displacement = vecmat (of_ivec n) cell0;
            reached = filter (\<lambda>i.
                (case vsub (vadd (positions0 ! i) displacement) (positions0 ! a) of
                   (x, y, z) \<Rightarrow> x\<^sup>2 + y\<^sup>2 + z\<^sup>2)
                  < (cutoffs_p self ! i + cutoffs_p self ! a)\<^sup>2) [0..<length positions0];
            i = (if n = (0, 0, 0)
                 then (if self_interaction_p self then filter (\<lambda>i. i \<ge> a) reached
                       else filter (\<lambda>i. i > a) reached)
                 else reached);
            disp = map (\<lambda>k. iadd n (isub (offs ! k) (offs ! a))) i
        in (nn + length i,
            npbc + length (filter (\<lambda>d. d \<noteq> (0, 0, 0)) disp),
            nbrs[a := nbrs ! a @ map int i],
            disps[a := disps ! a @ disp]))"

text \<open>Lines 645 to 649: the images visited, in order.\<close>

definition images :: "ivec3 \<Rightarrow> ivec3 list" where
  "images N =
     (case N of (N0, N1, N2) \<Rightarrow>
        filter (\<lambda>(n1, n2, n3). \<not> (n1 = 0 \<and> (n2 < 0 \<or> n2 = 0 \<and> n3 < 0)))
          (concat (map (\<lambda>n1. concat (map (\<lambda>n2. map (\<lambda>n3. (n1, n2, n3)) [- N2..N2]) [- N1..N1])) [0..N0])))"

text \<open>Lines 670 to 683: with \<open>bothways\<close> every atom also receives the mirror images of
  the pairs found from its partners.\<close>

definition mirror_entries :: "int list list \<Rightarrow> ivec3 list list \<Rightarrow> nat \<Rightarrow> (int \<times> ivec3) list" where
  "mirror_entries nbrs disps b =
     concat (map (\<lambda>a. map (\<lambda>(b', d). (int a, ineg d))
                   (filter (\<lambda>(b', d). b' = int b) (zip (nbrs ! a) (disps ! a))))
               [0..<length nbrs])"

definition both_ways :: "int list list \<times> ivec3 list list \<Rightarrow> int list list \<times> ivec3 list list" where
  "both_ways nd =
     (case nd of (nbrs, disps) \<Rightarrow>
        (map (\<lambda>a. nbrs ! a @ map fst (mirror_entries nbrs disps a)) [0..<length nbrs],
         map (\<lambda>a. disps ! a @ map snd (mirror_entries nbrs disps a)) [0..<length nbrs]))"

text \<open>Lines 685 to 698: with \<open>sorted\<close> the entries of atom \<open>a\<close> that point to a smaller
  index are moved, mirrored, to that atom.\<close>

fun move_entries ::
  "nat \<Rightarrow> (int \<times> ivec3) list \<Rightarrow> int list list \<times> ivec3 list list \<Rightarrow> int list list \<times> ivec3 list list" where
  "move_entries a [] nd = nd"
| "move_entries a ((b, offset) # rest) (nbrs, disps) =
     move_entries a rest
       (nbrs[nat b := nbrs ! nat b @ [int a]], disps[nat b := disps ! nat b @ [ineg offset]])"

definition sort_atom :: "int list list \<times> ivec3 list list \<Rightarrow> nat \<Rightarrow> int list list \<times> ivec3 list list" where
  "sort_atom nd a =
     (case nd of (nbrs, disps) \<Rightarrow>
        let i = nbrs ! a; ds = disps ! a; mask = map (\<lambda>b. b < int a) i in
        if True \<in> set mask then
          (case move_entries a (zip (mask_select mask i) (mask_select mask ds)) (nbrs, disps) of
             (nbrs', disps') \<Rightarrow>
               (nbrs'[a := mask_select (map Not mask) (nbrs' ! a)],
                disps'[a := mask_select (map Not mask) (disps' ! a)]))
        else (nbrs, disps))"

definition build_p :: "ext \<Rightarrow> primitive \<Rightarrow> bvec3 \<Rightarrow> mat3 \<Rightarrow> vec3 list \<Rightarrow> error + primitive" where
  "build_p E self pbc0 cell0 coordinates =
     (if length (cutoffs_p self) \<noteq> length coordinates then Inl ValueError
      else
        let rcmax = (if length (cutoffs_p self) > 0 then Max (set (cutoffs_p self)) else 0);
            icell = pinv E cell0;
            scaled = (if use_scaled_positions_p self then coordinates
                      else map (\<lambda>p. vecmat p icell) coordinates);
            positions0' = (if use_scaled_positions_p self then map (\<lambda>s. vecmat s cell0) coordinates
                           else coordinates)
        in
        case (pbc0, transpose3 icell) of ((px, py, pz), (v0, v1, v2)) \<Rightarrow>
        bind (axis_images px v0 rcmax) (\<lambda>N0.
        bind (axis_images py v1 rcmax) (\<lambda>N1.
        bind (axis_images pz v2 rcmax) (\<lambda>N2.
        let scaled0 = map (wrap_scaled pbc0) scaled;
            offs = map2 round_diff scaled0 scaled;
            positions0 = map2 (\<lambda>p off. vadd p (vecmat (of_ivec off) cell0)) positions0' offs;
            natoms = length positions0';
            start = (0, 0, replicate natoms [], replicate natoms []);
            found = fold (\<lambda>n st. fold (\<lambda>a st'. search_atom self cell0 positions0 offs n st' a)
                                   [0..<natoms] st)
                      (images (N0, N1, N2)) start
        in
        case found of (nn, npbc, nbrs, disps) \<Rightarrow>
        let nd1 = (if bothways_p self then both_ways (nbrs, disps) else (nbrs, disps));
            nd2 = (if sorted_p self then fold (\<lambda>a nd. sort_atom nd a) [0..<length (fst nd1)] nd1
                   else nd1)
        in Inr (self\<lparr> pbc_p := Some pbc0,
                     cell_p := Some cell0,
                     coordinates_p := Some coordinates,
                     nneighbors_p := nn,
                     npbcneighbors_p := npbc,
                     neighbors_p := Some (fst nd2),
                     displacements_p := Some (snd nd2),
                     nupdates_p := nupdates_p self + 1 \<rparr>)))))"

definition update_p :: "ext \<Rightarrow> primitive \<Rightarrow> bvec3 \<Rightarrow> mat3 \<Rightarrow> vec3 list \<Rightarrow> error + primitive \<times> bool" where
  "update_p E self pbc0 cell0 coordinates =
     (if nupdates_p self = 0
      then bind (build_p E self pbc0 cell0 coordinates) (\<lambda>self'. Inr (self', True))
      else
        (case pbc_p self of None \<Rightarrow> Inl AttributeError | Some p \<Rightarrow>
        (if any_differs p pbc0
         then bind (build_p E self pbc0 cell0 coordinates) (\<lambda>self'. Inr (self', True))
         else
        (case cell_p self of None \<Rightarrow> Inl AttributeError | Some c \<Rightarrow>
        (if c \<noteq> cell0
         then bind (build_p E self pbc0 cell0 coordinates) (\<lambda>self'. Inr (self', True))
         else
        (case coordinates_p self of None \<Rightarrow> Inl AttributeError | Some cs \<Rightarrow>
        bind (max_sq_displacement cs coordinates) (\<lambda>m.
          if m > (skin_p self)\<^sup>2
          then bind (build_p E self pbc0 cell0 coordinates) (\<lambda>self'. Inr (self', True))
          else Inr (self, False))))))))"

definition get_neighbors_p :: "primitive \<Rightarrow> int \<Rightarrow> error + int list \<times> ivec3 list" where
  "get_neighbors_p self a =
     (case neighbors_p self of None \<Rightarrow> Inl AttributeError | Some nbrs \<Rightarrow>
      bind (get_item nbrs a) (\<lambda>ns.
     (case displacements_p self of None \<Rightarrow> Inl AttributeError | Some disps \<Rightarrow>
      bind (get_item disps a) (\<lambda>ds. Inr (ns, ds)))))"


section \<open>Auxiliary notions used in the statements and proofs\<close>

text \<open>The number of entries of the first-index array that are below particle \<open>k\<close>: the
  position at which the neighbours of \<open>k\<close> start in a sorted pair list.\<close>

definition csr :: "int list \<Rightarrow> nat \<Rightarrow> int" where
  "csr i k = int (length (filter (\<lambda>x. x < int k) i))"

text \<open>The loop invariant of the back-filling loop of \<open>first_neighbors\<close>.\<close>

definition csr_inv :: "nat \<Rightarrow> int list \<Rightarrow> int list \<Rightarrow> bool" where
  "csr_inv n i s \<longleftrightarrow> length s = n + 1 \<and> s ! n = csr i n \<and>
     (\<forall>k<n. s ! k = csr i k \<or> (s ! k = - 1 \<and> int k \<notin> set i))"
definition runs :: "(int \<times> int) list \<Rightarrow> int \<Rightarrow> int list" where
  "runs L b = map snd (filter (\<lambda>ba. fst ba = b) L)"

fun mask_from :: "int \<Rightarrow> int list \<Rightarrow> bool list" where
  "mask_from p [] = []"
| "mask_from p (x # xs) = (p \<noteq> x) # mask_from x xs"

definition bins_inv ::
  "(int \<times> int) list \<Rightarrow> nat \<Rightarrow> nat \<Rightarrow> nat \<Rightarrow> int list list \<times> int list \<times> int list \<Rightarrow> bool" where
  "bins_inv L0 nbins max_nat k st \<longleftrightarrow>
     (case st of (B, as, bs) \<Rightarrow>
        length as = length bs \<and> sorted bs \<and>
        (\<forall>b. runs (zip bs as) b = drop k (runs L0 b)) \<and>
        length B = nbins \<and>
        (\<forall>r<nbins. length (B ! r) = max_nat \<and>
           (\<forall>c<max_nat. B ! r ! c =
              (if c < k \<and> c < length (runs L0 (int r)) then runs L0 (int r) ! c else - 1))))"

definition bins_ok :: "nat \<Rightarrow> int list \<Rightarrow> int list list \<Rightarrow> nat \<Rightarrow> bool" where
  "bins_ok nbins ks B mx \<longleftrightarrow>
     length B = nbins \<and> 0 < mx \<and> (\<forall>r<nbins. length (B ! r) = mx) \<and>
     (\<forall>r<nbins. \<forall>c<mx. B ! r ! c \<noteq> - 1 \<longrightarrow>
        0 \<le> B ! r ! c \<and> B ! r ! c < int (length ks) \<and> ks ! nat (B ! r ! c) = int r) \<and>
     (\<forall>a<length ks. \<exists>c<mx. B ! nat (ks ! a) ! c = int a) \<and>
     (\<forall>r<nbins. \<forall>c<mx. \<forall>c'<mx. B ! r ! c = B ! r ! c' \<and> B ! r ! c \<noteq> - 1 \<longrightarrow> c = c')"

definition coord :: "int \<Rightarrow> int \<Rightarrow> nat \<Rightarrow> ivec3" where
  "coord nx ny b = (int b mod nx, (int b div nx) mod ny, int b div (nx * ny))"

definition flat :: "int \<Rightarrow> int \<Rightarrow> ivec3 \<Rightarrow> int" where
  "flat nx ny c = (case c of (x, y, z) \<Rightarrow> x + nx * (y + ny * z))"

definition nb1 :: "ivec3 \<Rightarrow> nat \<Rightarrow> ivec3 \<Rightarrow> nat" where
  "nb1 n b d = (case (n, d) of ((nx, ny, nz), (dx, dy, dz)) \<Rightarrow>
     (case coord nx ny b of (bx, by, bz) \<Rightarrow>
        nat ((bx + dx) mod nx + nx * ((by + dy) mod ny + ny * ((bz + dz) mod nz)))))"

definition ws :: "ivec3 \<Rightarrow> nat \<Rightarrow> ivec3 \<Rightarrow> ivec3" where
  "ws n b d = (case (n, d) of ((nx, ny, nz), (dx, dy, dz)) \<Rightarrow>
     (case coord nx ny b of (bx, by, bz) \<Rightarrow>
        ((bx + dx) div nx, (by + dy) div ny, (bz + dz) div nz)))"

definition slot_pairs :: "ivec3 \<Rightarrow> int list list \<Rightarrow> nat \<Rightarrow> ivec3 \<Rightarrow> nat \<Rightarrow> (int \<times> int \<times> ivec3) list" where
  "slot_pairs n B mx d b =
     filter (\<lambda>(i, j, S). i \<noteq> - 1 \<and> j \<noteq> - 1)
       (concat (map (\<lambda>p. map (\<lambda>q. (B ! b ! p, B ! nb1 n b d ! q, ws n b d)) [0..<mx]) [0..<mx]))"

definition face_dists :: "ext \<Rightarrow> atoms \<Rightarrow> vec3" where
  "face_dists E a = (case transpose3 (pinv E (cell a)) of (b1, b2, b3) \<Rightarrow>
     (1 / norm3 b1, 1 / norm3 b2, 1 / norm3 b3))"

definition geom_nbins :: "ext \<Rightarrow> atoms \<Rightarrow> real \<Rightarrow> ivec3" where
  "geom_nbins E a mc = (case face_dists E a of (fx, fy, fz) \<Rightarrow>
     (nbins_of fx mc, nbins_of fy mc, nbins_of fz mc))"

definition geom_nd :: "ext \<Rightarrow> atoms \<Rightarrow> real \<Rightarrow> ivec3" where
  "geom_nd E a mc = (case face_dists E a of (fx, fy, fz) \<Rightarrow>
     (nd_of mc (nbins_of fx mc) fx, nd_of mc (nbins_of fy mc) fy, nd_of mc (nbins_of fz mc) fz))"

definition geom_binned :: "ext \<Rightarrow> atoms \<Rightarrow> real \<Rightarrow> (ivec3 \<times> int) list" where
  "geom_binned E a mc = map (bin_of (geom_nbins E a mc) (pbc a)) (get_scaled_positions E a)"

definition vol :: "ivec3 \<Rightarrow> int" where
  "vol n = (case n of (nx, ny, nz) \<Rightarrow> nx * ny * nz)"

definition shift_row :: "ivec3 list \<Rightarrow> int \<times> int \<times> ivec3 \<Rightarrow> int \<times> int \<times> ivec3" where
  "shift_row cs r = (case r of (i, j, S) \<Rightarrow> (i, j, iadd S (isub (cs ! nat i) (cs ! nat j))))"

definition post :: "atoms \<Rightarrow> bool \<Rightarrow> real \<Rightarrow> ivec3 list \<Rightarrow> (int \<times> int \<times> ivec3) list \<Rightarrow> row list" where
  "post a si mc cs cand =
     filter (\<lambda>(i, j, S, dr, dist). dist < mc)
       (map (with_distance a)
          (sort_key fst
             (drop_crossing (pbc a)
                (if \<not> si then filter (\<lambda>(i, j, S). \<not> (i = j \<and> S = (0, 0, 0))) (map (shift_row cs) cand)
                 else map (shift_row cs) cand))))"

fun stays_inside :: "bvec3 \<Rightarrow> ivec3 \<Rightarrow> bool" where
  "stays_inside (px, py, pz) (sx, sy, sz) = ((px \<or> sx = 0) \<and> (py \<or> sy = 0) \<and> (pz \<or> sz = 0))"

definition keep_row :: "bool \<Rightarrow> bvec3 \<Rightarrow> int \<times> int \<times> ivec3 \<Rightarrow> bool" where
  "keep_row si p r = (case r of (i, j, S) \<Rightarrow> (si \<or> \<not> (i = j \<and> S = (0, 0, 0))) \<and> stays_inside p S)"

definition all_columns :: "row list \<Rightarrow> column list" where
  "all_columns rows =
     [IntCol (map (\<lambda>(i, j, S, dr, dist). i) rows),
      IntCol (map (\<lambda>(i, j, S, dr, dist). j) rows),
      ShiftCol (map (\<lambda>(i, j, S, dr, dist). S) rows),
      VecCol (map (\<lambda>(i, j, S, dr, dist). dr) rows),
      RealCol (map (\<lambda>(i, j, S, dr, dist). dist) rows)]"

text \<open>A concrete configuration used to instantiate the theorems: two particles in the
  unit cube without periodicity. For the unit cell the pseudo-inverse is the identity and
  fractional coordinates are the Cartesian ones.\<close>

definition ext_unit_cell :: ext where
  "ext_unit_cell = \<lparr> pinv = (\<lambda>m. m), frac = (\<lambda>m p. p), atomic_numbers = (\<lambda>s. None) \<rparr>"

definition two_atoms :: atoms where
  "two_atoms = \<lparr> positions = [(0, 0, 0), (0, 0, 1 / 2)],
                 cell = ((1, 0, 0), (0, 1, 0), (0, 0, 1)),
                 pbc = (False, False, False),
                 numbers = [1, 1] \<rparr>"

fun vneg :: "vec3 \<Rightarrow> vec3" where
  "vneg (a, b, c) = (- a, - b, - c)"

definition item :: "real list \<Rightarrow> int \<Rightarrow> real" where
  "item xs k = (case get_item xs k of Inr v \<Rightarrow> v | Inl e \<Rightarrow> 0)"

fun first_nonzero_positive :: "ivec3 \<Rightarrow> bool" where
  "first_nonzero_positive (sx, sy, sz) =
     (if sx \<noteq> 0 then 0 < sx else if sy \<noteq> 0 then 0 < sy else 0 < sz)"

definition canonical :: "int \<times> int \<times> ivec3 \<Rightarrow> bool" where
  "canonical r = (case r of (i, j, S) \<Rightarrow>
     if S = (0, 0, 0) then i \<le> j else first_nonzero_positive S)"

definition triples :: "row list \<Rightarrow> (int \<times> int \<times> ivec3) list" where
  "triples rows = map (\<lambda>(i, j, S, dr, dd). (i, j, S)) rows"

definition halve :: "neighborlist \<Rightarrow> (int \<times> int \<times> ivec3) list \<Rightarrow> (int \<times> int \<times> ivec3) list" where
  "halve self ts =
     (let halved = (if \<not> bothways self then filter half_mask ts else ts)
      in if sorted_nl self then sort_key (\<lambda>(i, j, S). i * int (length halved) + j) halved else halved)"


section \<open>Properties of first\_neighbors\<close>

lemma bind_Inr [simp]: "bind (Inr x) f = f x" by (simp add: bind_def)
lemma bind_Inl [simp]: "bind (Inl e) f = Inl e" by (simp add: bind_def)

lemma set_item_nonneg: "0 \<le> k \<Longrightarrow> k < int (length xs) \<Longrightarrow> set_item xs k v = Inr (xs[nat k := v])"
  by (simp add: set_item_def py_index_def)

lemma set_item_last: "xs \<noteq> [] \<Longrightarrow> set_item xs (- 1) v = Inr (xs[length xs - 1 := v])"
  by (cases xs) (auto simp add: set_item_def py_index_def nat_diff_distrib)

lemma set_items_spec:
  assumes "\<forall>(k, v) \<in> set kvs. 0 \<le> k \<and> k < int (length s) \<and> v = f k"
  shows "set_items s kvs =
    Inr (map (\<lambda>p. if int p \<in> fst ` set kvs then f (int p) else s ! p) [0..<length s])"
  using assms
proof (induction kvs arbitrary: s)
  case Nil
  then show ?case by (simp add: map_nth)
next
  case (Cons kv kvs)
  obtain k v where kv: "kv = (k, v)" by (cases kv)
  from Cons.prems kv have k: "0 \<le> k" "k < int (length s)" "v = f k" by auto
  have *: "set_items (s[nat k := v]) kvs = Inr (map (\<lambda>p. if int p \<in> fst ` set kvs then f (int p) else s[nat k := v] ! p) [0..<length (s[nat k := v])])"
    by (rule Cons.IH) (use Cons.prems in auto)
  have "set_items s (kv # kvs) = set_items (s[nat k := v]) kvs"
    using k by (simp add: kv set_item_nonneg)
  also note *
  also have "map (\<lambda>p. if int p \<in> fst ` set kvs then f (int p) else s[nat k := v] ! p) [0..<length (s[nat k := v])]
     = map (\<lambda>p. if int p \<in> fst ` set (kv # kvs) then f (int p) else s ! p) [0..<length s]"
    using k by (auto simp: kv nth_list_update)
  finally show ?case .
qed

lemma sorted_filter_less_nth:
  assumes "sorted i" "p < length i" "p = 0 \<or> i ! (p - 1) < i ! p"
  shows "length (filter (\<lambda>x. x < i ! p) i) = p"
proof -
  have i: "i = take p i @ drop p i" by simp
  have a: "\<forall>x \<in> set (take p i). x < i ! p"
  proof
    fix x assume "x \<in> set (take p i)"
    then obtain q where q: "q < p" "x = i ! q" using assms(2) by (auto simp: in_set_conv_nth)
    then have "p \<noteq> 0" by simp
    with assms(3) have lt: "i ! (p - 1) < i ! p" by simp
    have "i ! q \<le> i ! (p - 1)" using assms(1,2) q by (intro sorted_nth_mono) auto
    with lt q show "x < i ! p" by simp
  qed
  have b: "\<forall>x \<in> set (drop p i). \<not> x < i ! p"
  proof
    fix x assume "x \<in> set (drop p i)"
    then obtain q where "q < length (drop p i)" "x = drop p i ! q" by (auto simp: in_set_conv_nth)
    then have q: "p + q < length i" "x = i ! (p + q)" by auto
    have "i ! p \<le> i ! (p + q)" using assms(1) q by (intro sorted_nth_mono) auto
    with q show "\<not> x < i ! p" by simp
  qed
  have "length (filter (\<lambda>x. x < i ! p) i) = length (filter (\<lambda>x. x < i ! p) (take p i)) + length (filter (\<lambda>x. x < i ! p) (drop p i))"
    by (subst i) (simp only: filter_append length_append)
  also have "\<dots> = p" using a b assms(2) by (simp add: filter_id_conv filter_empty_conv)
  finally show ?thesis .
qed

lemma run_starts_ok:
  assumes "sorted i" "\<forall>x\<in>set i. 0 \<le> x \<and> x < int n"
  shows "\<forall>(k, v) \<in> set (run_starts i). 0 \<le> k \<and> k < int n \<and> v = csr i (nat k)"
proof (clarify)
  fix k v assume "(k, v) \<in> set (run_starts i)"
  then obtain p where p: "p < length i - 1" "i ! p \<noteq> i ! Suc p" "k = i ! Suc p" "v = int p + 1"
    by (auto simp: run_starts_def)
  then have sp: "Suc p < length i" by simp
  have "i ! p \<le> i ! Suc p" using assms(1) sp by (intro sorted_nth_mono) auto
  with p have lt: "i ! (Suc p - 1) < i ! Suc p" by simp
  have kin: "k \<in> set i" using p sp by simp
  have "length (filter (\<lambda>x. x < i ! Suc p) i) = Suc p"
    using assms(1) sp lt by (intro sorted_filter_less_nth) auto
  with p kin assms(2) show "0 \<le> k \<and> k < int n \<and> v = csr i (nat k)"
    by (auto simp: csr_def)
qed

lemma run_starts_keys:
  assumes "sorted i" "i \<noteq> []"
  shows "fst ` set (run_starts i) = set i - {i ! 0}"
proof (intro set_eqI iffI)
  fix k assume "k \<in> fst ` set (run_starts i)"
  then obtain p where p: "p < length i - 1" "i ! p \<noteq> i ! Suc p" "k = i ! Suc p"
    by (auto simp: run_starts_def)
  have "i ! 0 \<le> i ! p" using assms(1) p by (intro sorted_nth_mono) auto
  moreover have "i ! p \<le> i ! Suc p" using assms(1) p by (intro sorted_nth_mono) auto
  ultimately show "k \<in> set i - {i ! 0}" using p by auto
next
  fix k assume k: "k \<in> set i - {i ! 0}"
  define q where "q = (LEAST q. q < length i \<and> i ! q = k)"
  from k have ex: "\<exists>q. q < length i \<and> i ! q = k" by (auto simp: in_set_conv_nth)
  then have q: "q < length i \<and> i ! q = k" unfolding q_def by (rule LeastI_ex)
  have q0: "q \<noteq> 0" using q k by (cases q) auto
  then obtain p where qp: "q = Suc p" by (cases q) auto
  have "i ! p \<noteq> k"
  proof
    assume "i ! p = k"
    then have "q \<le> p" unfolding q_def using q qp by (intro Least_le) auto
    with qp show False by simp
  qed
  with q qp have "(k, int p + 1) \<in> set (run_starts i)"
    by (auto simp: run_starts_def intro!: image_eqI[where x=p])
  then show "k \<in> fst ` set (run_starts i)" by force
qed


lemma csr_Suc_notin: "int k \<notin> set i \<Longrightarrow> csr i (Suc k) = csr i k"
proof -
  assume "int k \<notin> set i"
  then have "x < int (Suc k) \<longleftrightarrow> x < int k" if "x \<in> set i" for x
    using that by (cases "x = int k") auto
  then have "filter (\<lambda>x. x < int (Suc k)) i = filter (\<lambda>x. x < int k) i"
    by (intro filter_cong) auto
  then show ?thesis by (simp add: csr_def)
qed

lemma csr_Suc_count: "csr i (Suc k) = csr i k + int (count_list i (int k))"
  by (induction i) (auto simp: csr_def)

lemma csr_mono: "k \<le> l \<Longrightarrow> csr i k \<le> csr i l"
  by (induction i) (auto simp: csr_def)

lemma csr_all: "\<forall>x\<in>set i. x < int n \<Longrightarrow> csr i n = int (length i)"
  by (simp add: csr_def)

lemma csr_nonneg: "0 \<le> csr i k"
  by (simp add: csr_def)

lemma fill_step_nth:
  "k < length s \<Longrightarrow> fill_step s ! k = (if s ! k = - 1 then s ! Suc k else s ! k)"
  by (simp add: fill_step_def del: upt_Suc)

lemma length_fill_step [simp]: "length (fill_step s) = length s"
  by (simp add: fill_step_def)

lemma csr_inv_step:
  assumes "csr_inv n i s"
  shows "csr_inv n i (fill_step s)"
proof -
  from assms have len: "length s = n + 1" and sn: "s ! n = csr i n"
    and sk: "\<And>k. k < n \<Longrightarrow> s ! k = csr i k \<or> (s ! k = - 1 \<and> int k \<notin> set i)"
    by (auto simp: csr_inv_def)
  have n1: "s ! n \<noteq> - 1" using sn csr_nonneg[of i n] by simp
  have "fill_step s ! k = csr i k \<or> (fill_step s ! k = - 1 \<and> int k \<notin> set i)" if k: "k < n" for k
  proof (cases "s ! k = - 1")
    case False
    with sk[OF k] k len show ?thesis by (simp add: fill_step_nth)
  next
    case True
    with sk[OF k] csr_nonneg[of i k] have notin: "int k \<notin> set i" by auto
    have fs: "fill_step s ! k = s ! Suc k" using True k len by (simp add: fill_step_nth)
    have "s ! Suc k = csr i (Suc k) \<or> s ! Suc k = - 1"
    proof (cases "Suc k = n")
      case True with sn show ?thesis by simp
    next
      case False
      with k have "Suc k < n" by simp
      from sk[OF this] show ?thesis by auto
    qed
    with fs notin show ?thesis by (auto simp: csr_Suc_notin)
  qed
  moreover have "fill_step s ! n = csr i n" using n1 sn len by (simp add: fill_step_nth)
  moreover have "length (fill_step s) = n + 1" using len by simp
  ultimately show ?thesis by (simp add: csr_inv_def)
qed

lemma backfill_csr:
  "csr_inv n i s \<Longrightarrow> backfill s = Inr (map (csr i) [0..<n + 1])"
proof (induction s rule: backfill.induct)
  case (1 s)
  from "1.prems" have len: "length s = n + 1" and sn: "s ! n = csr i n"
    and sk: "\<And>k. k < n \<Longrightarrow> s ! k = csr i k \<or> (s ! k = - 1 \<and> int k \<notin> set i)"
    by (auto simp: csr_inv_def)
  have lastn: "last s \<noteq> - 1" using sn len csr_nonneg[of i n] by (cases s rule: rev_cases) (auto simp: nth_append)
  show ?case
  proof (cases "- 1 \<in> set s")
    case True
    have "backfill s = backfill (fill_step s)" using True lastn by (subst backfill.simps) simp
    also have "\<dots> = Inr (map (csr i) [0..<n + 1])"
      using True lastn "1.prems" by (intro "1.IH" csr_inv_step) auto
    finally show ?thesis .
  next
    case False
    have "s = map (csr i) [0..<n + 1]"
    proof (rule nth_equalityI)
      show "length s = length (map (csr i) [0..<n + 1])" using len by simp
    next
      fix k assume "k < length s"
      then have "k < n \<or> k = n" using len by auto
      moreover have "s ! k \<noteq> - 1" using False \<open>k < length s\<close> by (metis nth_mem)
      ultimately have "s ! k = csr i k" using sk sn by auto
      then show "s ! k = map (csr i) [0..<n + 1] ! k" using \<open>k < length s\<close> len
        by (simp del: upt_Suc)
    qed
    then show ?thesis using False by (subst backfill.simps) simp
  qed
qed

lemma first_neighbors_eq_csr:
  assumes "sorted i" "\<forall>x\<in>set i. 0 \<le> x \<and> x < int n"
  shows "first_neighbors n i = Inr (map (csr i) [0..<n + 1])"
proof (cases "i = []")
  case True
  have "replicate (n + 1) (0::int) = map (csr []) [0..<n + 1]"
    by (simp add: csr_def[abs_def] map_replicate_const del: upt_Suc replicate_Suc)
  with True show ?thesis by (simp add: first_neighbors_def)
next
  case False
  then have i0: "i ! 0 \<in> set i" by (cases i) auto
  with assms(2) have b0: "0 \<le> i ! 0" "i ! 0 < int n" by auto
  define s1 where "s1 = (replicate (n + 1) (- 1 :: int))[nat (i ! 0) := 0]"
  define s2 where "s2 = s1[n := int (length i)]"
  define s3 where "s3 = map (\<lambda>p. if int p \<in> fst ` set (run_starts i) then csr i (nat (int p)) else s2 ! p) [0..<length s2]"
  have l1: "length s1 = n + 1" by (simp add: s1_def del: replicate_Suc)
  have l2: "length s2 = n + 1" by (simp add: s2_def l1)
  have e1: "set_item (replicate (n + 1) (- 1)) (i ! 0) 0 = Inr s1"
    using b0 by (simp add: set_item_nonneg s1_def del: replicate_Suc)
  have e2: "set_item s1 (- 1) (int (length i)) = Inr s2"
    using l1 by (subst set_item_last) (auto simp: s2_def)
  have e3: "set_items s2 (run_starts i) = Inr s3"
    unfolding s3_def
    by (rule set_items_spec) (use run_starts_ok[OF assms] l2 in auto)
  have keys: "fst ` set (run_starts i) = set i - {i ! 0}"
    using assms(1) False by (rule run_starts_keys)
  have c0: "csr i (nat (i ! 0)) = 0"
    using sorted_filter_less_nth[OF assms(1), of 0] False b0 by (simp add: csr_def)
  have inv: "csr_inv n i s3"
    unfolding csr_inv_def
  proof (intro conjI allI impI)
    show "length s3 = n + 1" by (simp add: s3_def l2)
    have "int n \<notin> set i" using assms(2) by auto
    then have "int n \<notin> fst ` set (run_starts i)" using keys by blast
    then show "s3 ! n = csr i n"
      using assms(2) l1 l2 by (simp add: s3_def s2_def csr_all del: upt_Suc)
  next
    fix k assume k: "k < n"
    show "s3 ! k = csr i k \<or> (s3 ! k = - 1 \<and> int k \<notin> set i)"
    proof (cases "int k \<in> set i - {i ! 0}")
      case True
      then have "int k \<in> fst ` set (run_starts i)" using keys by blast
      then show ?thesis using k l2 by (simp add: s3_def del: upt_Suc)
    next
      case False
      then have "int k \<notin> fst ` set (run_starts i)" using keys by blast
      then have s3k: "s3 ! k = s1 ! k" using k l2 by (simp add: s3_def s2_def del: upt_Suc)
      show ?thesis
      proof (cases "int k = i ! 0")
        case True
        then have "k = nat (i ! 0)" by simp
        then show ?thesis using s3k c0 k by (simp add: s1_def del: replicate_Suc)
      next
        case ne: False
        with False have "int k \<notin> set i" by simp
        moreover have "k \<noteq> nat (i ! 0)" using ne b0 by auto
        ultimately show ?thesis using s3k k by (simp add: s1_def del: replicate_Suc)
      qed
    qed
  qed
  have "first_neighbors n i = backfill s3"
    using False by (simp only: first_neighbors_def e1 e2 e3 bind_Inr length_0_conv if_False)
  then show ?thesis
    by (simp only: backfill_csr[OF inv])
qed

text \<open>
  Claim C3. For a particle count \<open>n\<close> and a non-decreasing first-index array \<open>i\<close> whose
  entries are particle indices (\<open>0 \<le> x < n\<close>), \<open>first_neighbors n i\<close> returns an array
  \<open>s\<close> of length \<open>n + 1\<close> that is non-decreasing, with \<open>s[n]\<close> the number of pairs, and
  \<open>s[k+1] - s[k]\<close> the number of pairs whose first index is \<open>k\<close>; for the empty pair list
  the array is all zero.
\<close>

theorem first_neighbors_csr:
  assumes "sorted i" and "\<forall>x\<in>set i. 0 \<le> x \<and> x < int n"
  shows "\<exists>s. first_neighbors n i = Inr s \<and> length s = n + 1 \<and> sorted s \<and>
           s ! n = int (length i) \<and>
           (\<forall>k<n. s ! Suc k - s ! k = int (count_list i (int k))) \<and>
           (i = [] \<longrightarrow> s = replicate (n + 1) 0)"
proof -
  let ?s = "map (csr i) [0..<n + 1]"
  have eq: "first_neighbors n i = Inr ?s" using assms by (rule first_neighbors_eq_csr)
  have "sorted ?s"
    by (simp add: sorted_iff_nth_mono csr_mono nth_append del: upt_Suc)
  moreover have "?s ! n = int (length i)" using assms(2) by (simp add: csr_all del: upt_Suc)
  moreover have "\<forall>k<n. ?s ! Suc k - ?s ! k = int (count_list i (int k))"
    by (simp add: csr_Suc_count del: upt_Suc)
  moreover have "i = [] \<longrightarrow> ?s = replicate (n + 1) 0"
    by (simp add: csr_def[abs_def] map_replicate_const del: upt_Suc replicate_Suc)
  ultimately show ?thesis using eq by (simp del: upt_Suc)
qed

theorem first_neighbors_csr_witness:
  "sorted [0, 0, 2 :: int] \<and> first_neighbors 3 [0, 0, 2] = Inr [0, 2, 2, 3]"
proof -
  have h1: "sorted [0, 0, 2 :: int]" by simp
  have h2: "\<forall>x\<in>set [0, 0, 2 :: int]. 0 \<le> x \<and> x < int 3" by simp
  from first_neighbors_csr[OF h1 h2]
  obtain s where s: "first_neighbors 3 [0, 0, 2] = Inr s" "length s = 3 + 1"
    "s ! 3 = int (length [0, 0, 2 :: int])"
    "\<forall>k<3. s ! Suc k - s ! k = int (count_list [0, 0, 2] (int k))" by blast
  from s(2) obtain a b c d where abcd: "s = [a, b, c, d]"
    by (auto simp: length_Suc_conv numeral_eq_Suc)
  have "s ! Suc 0 - s ! 0 = 2" "s ! Suc 1 - s ! 1 = 0" "s ! Suc 2 - s ! 2 = 1"
    using s(4)[rule_format, of 0] s(4)[rule_format, of 1] s(4)[rule_format, of 2] by simp_all
  with s(3) abcd have "s = [0, 2, 2, 3]" by (simp add: numeral_eq_Suc)
  with s(1) h1 show ?thesis by simp
qed

section \<open>The padded bin table\<close>

lemma mask_select_simps [simp]:
  "mask_select [] xs = []"
  "mask_select m [] = []"
  "mask_select (True # m) (x # xs) = x # mask_select m xs"
  "mask_select (False # m) (x # xs) = mask_select m xs"
  by (simp_all add: mask_select_def)

lemma mask_select_zip:
  "length xs = length ys \<Longrightarrow>
   zip (mask_select m xs) (mask_select m ys) = mask_select m (zip xs ys)"
proof (induction xs ys arbitrary: m rule: list_induct2)
  case Nil
  then show ?case by simp
next
  case (Cons x xs y ys)
  show ?case
  proof (cases m)
    case Nil
    then show ?thesis by simp
  next
    case (Cons c m')
    with Cons.IH[of m'] show ?thesis by (cases c) simp_all
  qed
qed

lemma mask_select_map: "map f (mask_select m xs) = mask_select m (map f xs)"
proof (induction xs arbitrary: m)
  case Nil
  then show ?case by simp
next
  case (Cons x xs)
  show ?case
  proof (cases m)
    case Nil
    then show ?thesis by simp
  next
    case (Cons c m')
    with Cons.IH[of m'] show ?thesis by (cases c) simp_all
  qed
qed

lemma first_mask_Cons: "first_mask (x # xs) = True # mask_from x xs"
proof -
  have "map2 (\<lambda>x y. x \<noteq> y) (butlast (x # xs)) xs = mask_from x xs"
    by (induction xs arbitrary: x) auto
  then show ?thesis by (simp add: first_mask_def)
qed

lemma length_mask_from [simp]: "length (mask_from p xs) = length xs"
  by (induction xs arbitrary: p) auto

lemma runs_Nil [simp]: "runs [] b = []"
  by (simp add: runs_def)

lemma runs_Cons [simp]: "runs ((b0, a0) # L) b = (if b0 = b then a0 # runs L b else runs L b)"
  by (simp add: runs_def)

lemma runs_empty_if_less: "\<forall>x\<in>set (map fst L). b < x \<Longrightarrow> runs L b = []"
  by (induction L) (auto simp: runs_def)

lemma split_runs:
  "sorted (p # map fst L) \<Longrightarrow>
     runs (mask_select (map Not (mask_from p (map fst L))) L) b = (if p = b then runs L b else tl (runs L b)) \<and>
     runs (mask_select (mask_from p (map fst L)) L) b = (if p = b then [] else take 1 (runs L b))"
proof (induction L arbitrary: p)
  case Nil
  then show ?case by simp
next
  case (Cons ba L)
  obtain b0 a0 where ba: "ba = (b0, a0)" by (cases ba)
  from Cons.prems ba have srt: "sorted (b0 # map fst L)" and pb: "p \<le> b0" by auto
  note IH = Cons.IH[OF srt]
  show ?case
  proof (cases "p = b0")
    case True
    with IH show ?thesis by (auto simp add: ba)
  next
    case False
    with pb have lt: "p < b0" by simp
    have "\<forall>x\<in>set (map fst L). p < x" using srt lt by auto
    then have e: "runs L p = []" by (rule runs_empty_if_less)
    from False IH e show ?thesis by (auto simp add: ba)
  qed
qed

lemma step_runs:
  assumes "sorted (map fst L)" "L \<noteq> []"
  shows "runs (mask_select (map Not (first_mask (map fst L))) L) b = tl (runs L b)"
    and "runs (mask_select (first_mask (map fst L)) L) b = take 1 (runs L b)"
proof -
  obtain b0 a0 L' where L: "L = (b0, a0) # L'" using assms(2) by (cases L) auto
  from assms(1) L have "sorted (b0 # map fst L')" by simp
  from split_runs[OF this, of b] show
    "runs (mask_select (map Not (first_mask (map fst L))) L) b = tl (runs L b)"
    "runs (mask_select (first_mask (map fst L)) L) b = take 1 (runs L b)"
    by (auto simp add: L first_mask_Cons)
qed

lemma sorted_mask_select: "sorted (map f xs) \<Longrightarrow> sorted (map f (mask_select m xs))"
proof (induction xs arbitrary: m)
  case Nil
  then show ?case by simp
next
  case (Cons x xs)
  have sub: "set (mask_select m' xs) \<subseteq> set xs" for m'
    by (auto simp: mask_select_def dest: set_zip_rightD)
  show ?case
  proof (cases m)
    case Nil
    then show ?thesis by simp
  next
    case (Cons c m')
    with Cons.IH[of m'] Cons.prems sub[of m'] show ?thesis by (cases c) auto
  qed
qed

lemma set_column_spec:
  assumes "\<forall>(b, v) \<in> set kvs. 0 \<le> b \<and> b < int (length B) \<and> v = g b"
    and "\<forall>r<length B. i < length (B ! r)"
  shows "set_column B i kvs =
    Inr (map (\<lambda>r. if int r \<in> fst ` set kvs then (B ! r)[i := g (int r)] else B ! r) [0..<length B])"
  using assms
proof (induction kvs arbitrary: B)
  case Nil
  then show ?case by (simp add: map_nth)
next
  case (Cons kv kvs)
  obtain b v where kv: "kv = (b, v)" by (cases kv)
  from Cons.prems(1) kv have b: "0 \<le> b" "b < int (length B)" "v = g b" by auto
  then have pi: "py_index (length B) b = Some (nat b)" by (simp add: py_index_def)
  from b Cons.prems(2) have il: "i < length (B ! nat b)" by auto
  let ?B = "B[nat b := (B ! nat b)[i := v]]"
  have p1: "\<forall>(b, v) \<in> set kvs. 0 \<le> b \<and> b < int (length ?B) \<and> v = g b"
    using Cons.prems(1) by auto
  have p2: "\<forall>r<length ?B. i < length (?B ! r)"
    using Cons.prems(2) b by (auto simp: nth_list_update)
  have "set_column B i (kv # kvs) = set_column ?B i kvs"
    using pi il by (simp add: kv)
  also note Cons.IH[OF p1 p2]
  also have "map (\<lambda>r. if int r \<in> fst ` set kvs then (?B ! r)[i := g (int r)] else ?B ! r) [0..<length ?B]
     = map (\<lambda>r. if int r \<in> fst ` set (kv # kvs) then (B ! r)[i := g (int r)] else B ! r) [0..<length B]"
    using b by (auto simp: kv nth_list_update)
  finally show ?case .
qed

lemma runs_nonempty_iff: "runs L b \<noteq> [] \<longleftrightarrow> b \<in> fst ` set L"
  by (induction L) (auto simp: runs_def)

lemma runs_all_empty: "(\<forall>b. runs L b = []) \<Longrightarrow> L = []"
  by (cases L) (auto simp: runs_def split: if_splits)

lemma in_runs_iff: "a \<in> set (runs L b) \<longleftrightarrow> (b, a) \<in> set L"
  by (induction L) (auto simp: runs_def)

lemma length_first_mask: "bs \<noteq> [] \<Longrightarrow> length (first_mask bs) = length bs"
  by (cases bs) (simp_all add: first_mask_Cons)

lemma bins_step_inv:
  assumes inv: "bins_inv L0 nbins max_nat k st"
    and k: "k < max_nat"
    and ex: "\<exists>b. k < length (runs L0 b)"
    and rng: "\<forall>(b, a) \<in> set L0. 0 \<le> b \<and> b < int nbins"
  shows "\<exists>st'. bins_step k st = Inr st' \<and> bins_inv L0 nbins max_nat (Suc k) st'"
proof -
  obtain B as bs where st: "st = (B, as, bs)" by (cases st)
  define L where "L = zip bs as"
  from inv st have len: "length as = length bs" and srt: "sorted bs"
    and rn: "\<And>b. runs L b = drop k (runs L0 b)" and lB: "length B = nbins"
    and rows: "\<And>r. r < nbins \<Longrightarrow> length (B ! r) = max_nat"
    and ent: "\<And>r c. r < nbins \<Longrightarrow> c < max_nat \<Longrightarrow> B ! r ! c =
              (if c < k \<and> c < length (runs L0 (int r)) then runs L0 (int r) ! c else - 1)"
    by (auto simp: bins_inv_def L_def)
  have fstL: "map fst L = bs" and sndL: "map snd L = as" using len by (simp_all add: L_def)
  from ex obtain b1 where "k < length (runs L0 b1)" by blast
  then have "runs L b1 \<noteq> []" by (simp add: rn)
  then have Lne: "L \<noteq> []" by (auto simp: runs_def)
  then have bsne: "bs \<noteq> []" using fstL by auto
  define m where "m = first_mask bs"
  define m' where "m' = map Not m"
  have lm: "length m = length bs" unfolding m_def using bsne by (rule length_first_mask)
  define F where "F = mask_select m L"
  define R where "R = mask_select m' L"
  have Fz: "zip (mask_select m bs) (mask_select m as) = F"
    unfolding F_def L_def using len by (intro mask_select_zip) simp
  have Rf: "mask_select m' bs = map fst R" and Rs: "mask_select m' as = map snd R"
    by (simp_all add: R_def mask_select_map fstL sndL)
  have srtL: "sorted (map fst L)" using srt fstL by simp
  have runsR: "runs R b = drop (Suc k) (runs L0 b)" for b
    using step_runs(1)[OF srtL Lne, of b] by (simp add: R_def m'_def m_def fstL rn drop_Suc tl_drop)
  have runsF: "runs F b = take 1 (drop k (runs L0 b))" for b
    using step_runs(2)[OF srtL Lne, of b] by (simp add: F_def m_def fstL rn)
  define g where "g b = runs L0 b ! k" for b
  have Fprop: "0 \<le> b \<and> b < int (length B) \<and> v = g b \<and> k < length (runs L0 b)" if "(b, v) \<in> set F" for b v
  proof -
    from that have "v \<in> set (runs F b)" by (simp add: in_runs_iff)
    then have v: "v \<in> set (take 1 (drop k (runs L0 b)))" by (simp add: runsF)
    then have ne: "drop k (runs L0 b) \<noteq> []" by auto
    then have kl: "k < length (runs L0 b)" by simp
    from v ne have "v = hd (drop k (runs L0 b))" by (cases "drop k (runs L0 b)") auto
    then have vg: "v = g b" using kl by (simp add: g_def hd_drop_conv_nth)
    from kl have "runs L0 b \<noteq> []" by auto
    then obtain a where "(b, a) \<in> set L0" by (auto simp: runs_nonempty_iff)
    with rng lB have "0 \<le> b \<and> b < int (length B)" by auto
    with vg kl show ?thesis by simp
  qed
  have Fkeys: "b \<in> fst ` set F \<longleftrightarrow> k < length (runs L0 b)" for b
  proof -
    have "b \<in> fst ` set F \<longleftrightarrow> runs F b \<noteq> []" by (simp add: runs_nonempty_iff)
    also have "\<dots> \<longleftrightarrow> k < length (runs L0 b)" by (auto simp add: runsF)
    finally show ?thesis .
  qed
  define B' where "B' = map (\<lambda>r. if int r \<in> fst ` set F then (B ! r)[k := g (int r)] else B ! r) [0..<length B]"
  have sc: "set_column B k F = Inr B'"
    unfolding B'_def
    by (rule set_column_spec) (use Fprop rows lB k in auto)
  have step: "bins_step k st = Inr (B', mask_select m' as, mask_select m' bs)"
    using lm by (simp add: bins_step_def st Let_def m_def[symmetric] Fz sc m'_def[symmetric])
  have inv': "bins_inv L0 nbins max_nat (Suc k) (B', mask_select m' as, mask_select m' bs)"
    unfolding bins_inv_def prod.case
  proof (intro conjI allI impI)
    show "length (mask_select m' as) = length (mask_select m' bs)" by (simp add: Rf Rs)
    show "sorted (mask_select m' bs)"
      using sorted_mask_select[of fst L m'] srtL by (simp add: Rf R_def)
    show "runs (zip (mask_select m' bs) (mask_select m' as)) b = drop (Suc k) (runs L0 b)" for b
      by (simp add: Rf Rs zip_map_fst_snd runsR)
    show "length B' = nbins" by (simp add: B'_def lB)
  next
    fix r assume r: "r < nbins"
    show "length (B' ! r) = max_nat" using r rows lB by (simp add: B'_def)
  next
    fix r c assume r: "r < nbins" and c: "c < max_nat"
    show "B' ! r ! c = (if c < Suc k \<and> c < length (runs L0 (int r)) then runs L0 (int r) ! c else - 1)"
    proof (cases "k < length (runs L0 (int r))")
      case True
      then have "B' ! r = (B ! r)[k := g (int r)]" using r lB by (simp add: B'_def Fkeys)
      then show ?thesis using True ent[OF r c] rows[OF r] c k
        by (auto simp: nth_list_update g_def less_Suc_eq)
    next
      case False
      then have "B' ! r = B ! r" using r lB by (simp add: B'_def Fkeys)
      then show ?thesis using False ent[OF r c] by (auto simp: less_Suc_eq)
    qed
  qed
  from step inv' show ?thesis by blast
qed

lemma bins_loop_inv:
  assumes "bins_inv L0 nbins max_nat k st"
    and "k \<le> max_nat"
    and "\<exists>b. length (runs L0 b) = max_nat"
    and "\<forall>(b, a) \<in> set L0. 0 \<le> b \<and> b < int nbins"
  shows "\<exists>st'. bins_loop [k..<max_nat] st = Inr st' \<and> bins_inv L0 nbins max_nat max_nat st'"
  using assms(1,2)
proof (induction "max_nat - k" arbitrary: k st)
  case 0
  then show ?case by simp
next
  case (Suc d)
  then have k: "k < max_nat" by simp
  from assms(3) k have "\<exists>b. k < length (runs L0 b)" by auto
  from bins_step_inv[OF Suc.prems(1) k this assms(4)]
  obtain st1 where s1: "bins_step k st = Inr st1" "bins_inv L0 nbins max_nat (Suc k) st1" by blast
  have "\<exists>st'. bins_loop [Suc k..<max_nat] st1 = Inr st' \<and> bins_inv L0 nbins max_nat max_nat st'"
    by (rule Suc.hyps(1)) (use Suc.hyps(2) k s1 in auto)
  then show ?case using k s1 by (simp add: upt_conv_Cons)
qed

lemma runs_zip_map:
  "runs (zip (map f ps) (map g ps)) b = map g (filter (\<lambda>p. f p = b) ps)"
  by (induction ps) (auto simp: runs_def)

lemma argsort_props:
  "set (argsort ks) = {0..<length ks}" "distinct (argsort ks)"
  "sorted (map (\<lambda>p. ks ! p) (argsort ks))" "length (argsort ks) = length ks"
  by (simp_all add: argsort_def sorted_sort_key)

lemma make_bins_spec:
  assumes ne: "ks \<noteq> []" and rng: "\<forall>k\<in>set ks. 0 \<le> k \<and> k < int nbins"
  shows "\<exists>B mx. make_bins nbins ks = Inr (B, mx) \<and> bins_ok nbins ks B mx"
proof -
  define i where "i = argsort ks"
  define as where "as = map int i"
  define bs where "bs = map (\<lambda>p. ks ! p) i"
  define L0 where "L0 = zip bs as"
  have iset: "set i = {0..<length ks}" and idist: "distinct i" and li: "length i = length ks"
    by (simp_all add: i_def argsort_props)
  have srt: "sorted bs" by (simp add: bs_def i_def argsort_props)
  have ine: "i \<noteq> []" using li ne by auto
  have bsset: "set bs \<subseteq> set ks" using iset by (auto simp: bs_def)
  have bsne: "bs \<noteq> []" using ine by (simp add: bs_def)
  have runs0: "runs L0 b = map int (filter (\<lambda>p. ks ! p = b) i)" for b
    by (simp add: L0_def bs_def as_def runs_zip_map)
  have lruns: "length (runs L0 b) = count_list bs b" for b
  proof -
    have "filter ((=) b) (map (\<lambda>p. ks ! p) i) = map (\<lambda>p. ks ! p) (filter (\<lambda>p. b = ks ! p) i)"
      by (simp add: filter_map o_def)
    moreover have "filter (\<lambda>p. b = ks ! p) i = filter (\<lambda>p. ks ! p = b) i"
      by (intro filter_cong) auto
    ultimately show ?thesis
      by (simp add: runs0 count_list_eq_length_filter bs_def)
  qed
  define counts where "counts = map (\<lambda>b. count_list bs (int b)) [0..<nat (Max (set bs)) + 1]"
  define mx where "mx = Max (set counts)"
  have nonneg: "\<not> (\<exists>x\<in>set bs. x < 0)" using bsset rng by force
  have bc: "bincount bs = Inr counts"
    using nonneg bsne by (simp add: bincount_def counts_def del: upt_Suc)
  have cne: "counts \<noteq> []" by (simp add: counts_def)
  have nm: "np_max counts = Inr mx" using cne by (simp add: np_max_def mx_def)
  have le_mx: "length (runs L0 b) \<le> mx" for b
  proof (cases "b \<in> set bs")
    case True
    then have "b \<le> Max (set bs)" by simp
    moreover have "0 \<le> b" using True nonneg by force
    ultimately have "nat b \<in> set [0..<nat (Max (set bs)) + 1]" by auto
    then have "count_list bs (int (nat b)) \<in> set counts"
      unfolding counts_def set_map by (rule imageI)
    then have "count_list bs b \<in> set counts" using \<open>0 \<le> b\<close> by simp
    then show ?thesis unfolding mx_def lruns by (intro Max_ge) auto
  next
    case False
    then have "count_list bs b = 0" by (simp add: count_list_0_iff)
    then show ?thesis by (simp add: lruns)
  qed
  have "mx \<in> set counts" unfolding mx_def using cne by (intro Max_in) auto
  then obtain b0 where b0: "count_list bs (int b0) = mx"
    unfolding counts_def set_map by blast
  then have ex_mx: "\<exists>b. length (runs L0 b) = mx" by (auto simp: lruns)
  have mxpos: "0 < mx"
  proof -
    have "hd bs \<in> set bs" using bsne by simp
    then have "count_list bs (hd bs) \<noteq> 0" by (simp add: count_list_0_iff)
    then have "0 < count_list bs (hd bs)" by simp
    with le_mx[of "hd bs"] show ?thesis by (simp add: lruns)
  qed
  have rng0: "\<forall>(b, a) \<in> set L0. 0 \<le> b \<and> b < int nbins"
    using bsset rng by (auto simp: L0_def dest!: set_zip_leftD)
  have las: "length as = length bs" by (simp add: as_def bs_def)
  have inv0: "bins_inv L0 nbins mx 0 (replicate nbins (replicate mx (- 1)), as, bs)"
    by (simp add: bins_inv_def srt L0_def las)
  from bins_loop_inv[OF inv0 _ ex_mx rng0]
  obtain st' where st': "bins_loop [0..<mx] (replicate nbins (replicate mx (- 1)), as, bs) = Inr st'"
    "bins_inv L0 nbins mx mx st'" by auto
  obtain B as' bs' where st'eq: "st' = (B, as', bs')" by (cases st')
  from st'(2) st'eq have len': "length as' = length bs'"
    and rn': "\<And>b. runs (zip bs' as') b = drop mx (runs L0 b)" and lB: "length B = nbins"
    and rows: "\<And>r. r < nbins \<Longrightarrow> length (B ! r) = mx"
    and ent: "\<And>r c. r < nbins \<Longrightarrow> c < mx \<Longrightarrow> B ! r ! c =
              (if c < length (runs L0 (int r)) then runs L0 (int r) ! c else - 1)"
    by (auto simp: bins_inv_def)
  have "\<forall>b. runs (zip bs' as') b = []" using rn' le_mx by simp
  then have "zip bs' as' = []" by (rule runs_all_empty)
  with len' have emp: "as' = []" "bs' = []" by (cases as'; cases bs'; simp)+
  have mb: "make_bins nbins ks = Inr (B, mx)"
    by (simp add: make_bins_def Let_def i_def[symmetric] as_def[symmetric] bs_def[symmetric] bc nm st' st'eq emp)
  have distr: "distinct (runs L0 b)" for b
    by (simp add: runs0 distinct_map idist inj_on_def)
  have setr: "set (runs L0 b) = {int p | p. p < length ks \<and> ks ! p = b}" for b
    using iset by (auto simp: runs0)
  have p4: "0 \<le> B ! r ! c \<and> B ! r ! c < int (length ks) \<and> ks ! nat (B ! r ! c) = int r"
    if r: "r < nbins" and c: "c < mx" and n1: "B ! r ! c \<noteq> - 1" for r c
  proof -
    from ent[OF r c] n1 have cl: "c < length (runs L0 (int r))" and e: "B ! r ! c = runs L0 (int r) ! c"
      by (auto split: if_splits)
    then have "B ! r ! c \<in> set (runs L0 (int r))" by simp
    then show ?thesis by (auto simp: setr)
  qed
  have p5: "\<exists>c<mx. B ! nat (ks ! a) ! c = int a" if a: "a < length ks" for a
  proof -
    from a have "ks ! a \<in> set ks" by simp
    with rng have kr: "0 \<le> ks ! a" "ks ! a < int nbins" by auto
    have "int a \<in> set (runs L0 (ks ! a))" using a by (auto simp: setr)
    then obtain c where c: "c < length (runs L0 (ks ! a))" "runs L0 (ks ! a) ! c = int a"
      by (auto simp: in_set_conv_nth)
    with le_mx[of "ks ! a"] have cm: "c < mx" by simp
    have "B ! nat (ks ! a) ! c = int a"
      using ent[of "nat (ks ! a)" c] kr cm c by simp
    with cm show ?thesis by blast
  qed
  have p6: "c = c'" if r: "r < nbins" and c: "c < mx" and c': "c' < mx"
      and h: "B ! r ! c = B ! r ! c' \<and> B ! r ! c \<noteq> - 1" for r c c'
  proof -
    from ent[OF r c] h have cl: "c < length (runs L0 (int r))" and e: "B ! r ! c = runs L0 (int r) ! c"
      by (auto split: if_splits)
    from ent[OF r c'] h have cl': "c' < length (runs L0 (int r))" and e': "B ! r ! c' = runs L0 (int r) ! c'"
      by (auto split: if_splits)
    from h e e' have "runs L0 (int r) ! c = runs L0 (int r) ! c'" by simp
    with distr[of "int r"] cl cl' show "c = c'" by (simp add: nth_eq_iff_index_eq)
  qed
  have ok: "bins_ok nbins ks B mx"
    unfolding bins_ok_def using lB mxpos rows p4 p5 p6 by blast
  from mb ok show ?thesis by blast
qed

lemma upto_as_upt: "0 \<le> n \<Longrightarrow> [0..n - 1] = map int [0..<nat n]"
proof (induction "nat n" arbitrary: n)
  case 0
  then show ?case by simp
next
  case (Suc k)
  then have n: "0 < n" "nat (n - 1) = k" by auto
  then have "[0..n - 1 - 1] = map int [0..<nat (n - 1)]" using Suc.hyps(1)[of "n - 1"] by simp
  moreover have "[0..n - 1] = [0..n - 1 - 1] @ [n - 1]" using n by (simp add: upto_rec2)
  moreover have "[0..<nat n] = [0..<nat (n - 1)] @ [nat (n - 1)]"
    using n Suc.hyps(2) by (metis upt_Suc_append zero_le)
  ultimately show ?case using n by simp
qed

lemma concat_rows_flat:
  "concat (map (\<lambda>z. map (\<lambda>x. g x z) [0..<m]) [0..<k]) = map (\<lambda>b. g (b mod m) (b div m)) [0..<k * m]"
proof (induction k)
  case 0
  then show ?case by simp
next
  case (Suc k)
  have "[0..<k * m + m] = [0..<k * m] @ [k * m..<k * m + m]"
    by (rule upt_add_eq_append) simp
  then have "[0..<Suc k * m] = [0..<k * m] @ map (\<lambda>x. x + k * m) [0..<m]"
    by (simp add: map_add_upt add.commute)
  moreover have "map (\<lambda>b. g (b mod m) (b div m)) (map (\<lambda>x. x + k * m) [0..<m]) = map (\<lambda>x. g x k) [0..<m]"
    by (simp add: o_def)
  ultimately show ?case using Suc by simp
qed

lemma bin_coords_eq:
  assumes "1 \<le> nx" "1 \<le> ny" "1 \<le> nz"
  shows "bin_coords (nx, ny, nz) = map (coord nx ny) [0..<nat (nx * ny * nz)]"
proof -
  define a where "a = nat nx"
  define b where "b = nat ny"
  define c where "c = nat nz"
  have abc: "nx = int a" "ny = int b" "nz = int c" using assms by (simp_all add: a_def b_def c_def)
  have r: "[0..nx - 1] = map int [0..<a]" "[0..ny - 1] = map int [0..<b]" "[0..nz - 1] = map int [0..<c]"
    using assms by (simp_all add: upto_as_upt a_def b_def c_def)
  have inner: "concat (map (\<lambda>y. map (\<lambda>x. (int x, int y, z)) [0..<a]) [0..<b])
      = map (\<lambda>t. (int (t mod a), int (t div a), z)) [0..<b * a]" for z :: int
    by (rule concat_rows_flat[of "\<lambda>x y. (int x, int y, z)" a b])
  have "bin_coords (nx, ny, nz) =
      concat (map (\<lambda>z. map (\<lambda>t. (int (t mod a), int (t div a), int z)) [0..<b * a]) [0..<c])"
    by (simp add: bin_coords_def r inner o_def)
  also have "\<dots> = map (\<lambda>t. (int ((t mod (b * a)) mod a), int ((t mod (b * a)) div a), int (t div (b * a)))) [0..<c * (b * a)]"
    by (rule concat_rows_flat[of "\<lambda>t z. (int (t mod a), int (t div a), int z)" "b * a" c])
  also have "\<dots> = map (coord nx ny) [0..<nat (nx * ny * nz)]"
  proof -
    have n: "nat (nx * ny * nz) = c * (b * a)"
      by (simp add: abc nat_mult_distrib mult_ac flip: of_nat_mult)
    have "(t mod (b * a)) mod a = t mod a" for t
      by (simp add: mod_mult2_eq' mult.commute mod_mod_cancel)
    moreover have "(t mod (b * a)) div a = (t div a) mod b" for t
      by (cases "a = 0") (simp_all add: mult.commute[of b a] mod_mult2_eq)
    ultimately show ?thesis
      by (simp add: n coord_def abc zmod_int zdiv_int mult.commute flip: of_nat_mult)
  qed
  finally show ?thesis .
qed

lemma zip_upt_map: "zip xs (map f xs) = map (\<lambda>x. (x, f x)) xs"
  by (induction xs) auto

lemma offset_pairs_eq:
  assumes "1 \<le> nx" "1 \<le> ny" "1 \<le> nz" "length B = nat (nx * ny * nz)"
  shows "offset_pairs (nx, ny, nz) B mx d = concat (map (slot_pairs (nx, ny, nz) B mx d) [0..<length B])"
proof -
  obtain dx dy dz where d: "d = (dx, dy, dz)" by (cases d)
  have z: "zip [0..<length B] (bin_coords (nx, ny, nz)) = map (\<lambda>b. (b, coord nx ny b)) [0..<length B]"
    by (simp add: bin_coords_eq[OF assms(1-3)] assms(4) zip_upt_map)
  define F where "F = (\<lambda>(b, (bx, by, bz)).
          let sx = (bx + dx) div nx; bx1 = (bx + dx) mod nx;
              sy = (by + dy) div ny; by1 = (by + dy) mod ny;
              sz = (bz + dz) div nz; bz1 = (bz + dz) mod nz;
              b1 = bx1 + nx * (by1 + ny * bz1)
          in filter (\<lambda>(i, j, S). i \<noteq> - 1 \<and> j \<noteq> - 1)
               (concat (map (\<lambda>p. map (\<lambda>q. (B ! b ! p, B ! nat b1 ! q, (sx, sy, sz)))
                  [0..<mx]) [0..<mx])))"
  have body: "F (b, coord nx ny b) = slot_pairs (nx, ny, nz) B mx (dx, dy, dz) b" for b
    by (cases "coord nx ny b") (simp add: F_def slot_pairs_def nb1_def ws_def Let_def)
  have "offset_pairs (nx, ny, nz) B mx d = concat (map F (zip [0..<length B] (bin_coords (nx, ny, nz))))"
    by (simp only: offset_pairs_def d prod.case F_def)
  also have "\<dots> = concat (map (\<lambda>b. F (b, coord nx ny b)) [0..<length B])"
    by (simp only: z map_map o_def)
  also have "\<dots> = concat (map (slot_pairs (nx, ny, nz) B mx d) [0..<length B])"
    by (simp only: body d)
  finally show ?thesis .
qed

lemma in_concat_grid:
  "t \<in> set (concat (map (\<lambda>p. map (\<lambda>q. f p q) [0..<m]) [0..<k])) \<longleftrightarrow> (\<exists>p<k. \<exists>q<m. t = f p q)"
proof -
  have "t \<in> set (concat (map (\<lambda>p. map (\<lambda>q. f p q) [0..<m]) [0..<k]))
      \<longleftrightarrow> (\<exists>p\<in>{0..<k}. t \<in> (\<lambda>q. f p q) ` {0..<m})"
    by simp
  also have "\<dots> \<longleftrightarrow> (\<exists>p<k. \<exists>q<m. t = f p q)"
    unfolding image_iff Bex_def atLeastLessThan_iff by simp
  finally show ?thesis .
qed

lemma in_slot_pairs:
  "(i, j, S) \<in> set (slot_pairs n B mx d b) \<longleftrightarrow>
     (\<exists>p<mx. \<exists>q<mx. i = B ! b ! p \<and> j = B ! nb1 n b d ! q \<and> S = ws n b d \<and> i \<noteq> - 1 \<and> j \<noteq> - 1)"
proof -
  have "(i, j, S) \<in> set (slot_pairs n B mx d b) \<longleftrightarrow>
      (i, j, S) \<in> set (concat (map (\<lambda>p. map (\<lambda>q. (B ! b ! p, B ! nb1 n b d ! q, ws n b d)) [0..<mx]) [0..<mx]))
       \<and> i \<noteq> - 1 \<and> j \<noteq> - 1"
    by (simp only: slot_pairs_def set_filter mem_Collect_eq prod.case)
  also have "\<dots> \<longleftrightarrow> (\<exists>p<mx. \<exists>q<mx. (i, j, S) = (B ! b ! p, B ! nb1 n b d ! q, ws n b d)) \<and> i \<noteq> - 1 \<and> j \<noteq> - 1"
    by (simp only: in_concat_grid)
  also have "\<dots> \<longleftrightarrow> (\<exists>p<mx. \<exists>q<mx. i = B ! b ! p \<and> j = B ! nb1 n b d ! q \<and> S = ws n b d \<and> i \<noteq> - 1 \<and> j \<noteq> - 1)"
    by (simp only: prod.inject) blast
  finally show ?thesis .
qed

lemma set_offsets:
  "(dx, dy, dz) \<in> set (offsets (ndx, ndy, ndz)) \<longleftrightarrow>
     - ndx \<le> dx \<and> dx \<le> ndx \<and> - ndy \<le> dy \<and> dy \<le> ndy \<and> - ndz \<le> dz \<and> dz \<le> ndz"
  by (auto simp: offsets_def image_iff)

lemma concat_filter_nonempty: "concat (filter (\<lambda>blk. blk \<noteq> []) xss) = concat xss"
  by (induction xss) auto

lemma candidate_pairs_set:
  assumes "1 \<le> nx" "1 \<le> ny" "1 \<le> nz" "length B = nat (nx * ny * nz)"
    and "candidate_pairs (nx, ny, nz) nd B mx = Inr cand"
  shows "(i, j, S) \<in> set cand \<longleftrightarrow>
     (\<exists>d\<in>set (offsets nd). \<exists>b<length B. \<exists>p<mx. \<exists>q<mx.
        i = B ! b ! p \<and> j = B ! nb1 (nx, ny, nz) b d ! q \<and> S = ws (nx, ny, nz) b d \<and> i \<noteq> - 1 \<and> j \<noteq> - 1)"
proof -
  from assms(5) have "cand = concat (map (offset_pairs (nx, ny, nz) B mx) (offsets nd))"
    by (auto simp: candidate_pairs_def np_concatenate_def concat_filter_nonempty split: if_splits)
  moreover have "offset_pairs (nx, ny, nz) B mx = (\<lambda>d. concat (map (slot_pairs (nx, ny, nz) B mx d) [0..<length B]))"
    by (rule ext) (rule offset_pairs_eq[OF assms(1-4)])
  ultimately have "cand = concat (map (\<lambda>d. concat (map (slot_pairs (nx, ny, nz) B mx d) [0..<length B])) (offsets nd))"
    by simp
  then show ?thesis by (simp add: in_slot_pairs Bex_def)
qed

lemma coord_flat:
  assumes "1 \<le> nx" "1 \<le> ny" "0 \<le> x" "x < nx" "0 \<le> y" "y < ny" "0 \<le> z"
  shows "coord nx ny (nat (x + nx * (y + ny * z))) = (x, y, z)"
proof -
  have nn: "0 \<le> x + nx * (y + ny * z)"
    by (intro add_nonneg_nonneg mult_nonneg_nonneg) (use assms in auto)
  have a: "(x + nx * (y + ny * z)) mod nx = x" using assms by simp
  have b: "(x + nx * (y + ny * z)) div nx = y + ny * z" using assms by simp
  have c: "(y + ny * z) mod ny = y" using assms by simp
  have "(x + nx * (y + ny * z)) div (nx * ny) = (x + nx * (y + ny * z)) div nx div ny"
    using assms by (simp add: zdiv_zmult2_eq)
  also have "\<dots> = z" using assms by (simp add: b)
  finally show ?thesis using nn a b c by (simp add: coord_def)
qed

lemma flat_coord:
  assumes "1 \<le> nx" "1 \<le> ny"
  shows "(case coord nx ny b of (x, y, z) \<Rightarrow> x + nx * (y + ny * z)) = int b"
proof -
  have "int b div (nx * ny) = int b div nx div ny" using assms by (simp add: zdiv_zmult2_eq)
  then show ?thesis by (simp add: coord_def)
qed

lemma coord_range:
  assumes "1 \<le> nx" "1 \<le> ny" "1 \<le> nz" "b < nat (nx * ny * nz)"
  shows "case coord nx ny b of (x, y, z) \<Rightarrow> 0 \<le> x \<and> x < nx \<and> 0 \<le> y \<and> y < ny \<and> 0 \<le> z \<and> z < nz"
proof -
  define a where "a = nat nx"
  define c where "c = nat ny"
  define e where "e = nat nz"
  have abc: "nx = int a" "ny = int c" "nz = int e" using assms by (simp_all add: a_def c_def e_def)
  have "b < e * (a * c)" using assms(4) by (simp add: abc nat_mult_distrib mult_ac flip: of_nat_mult)
  then have "b div (a * c) < e" by (rule less_mult_imp_div_less)
  then have "int (b div (a * c)) < int e" by simp
  then have "int b div (nx * ny) < nz" by (simp only: abc zdiv_int of_nat_mult)
  moreover have "0 \<le> int b div (nx * ny)" using assms by (simp add: pos_imp_zdiv_nonneg_iff)
  ultimately show ?thesis using assms by (simp add: coord_def)
qed

lemma flat_bound:
  fixes nx ny nz x y z :: int
  assumes "1 \<le> nx" "1 \<le> ny" "1 \<le> nz" "0 \<le> x" "x < nx" "0 \<le> y" "y < ny" "0 \<le> z" "z < nz"
  shows "0 \<le> x + nx * (y + ny * z)" "x + nx * (y + ny * z) < nx * ny * nz"
proof -
  show "0 \<le> x + nx * (y + ny * z)"
    by (intro add_nonneg_nonneg mult_nonneg_nonneg) (use assms in auto)
  have "y + ny * z \<le> ny * nz - 1"
  proof -
    have "ny * z \<le> ny * (nz - 1)" using assms by (intro mult_left_mono) auto
    then show ?thesis using assms by (simp add: algebra_simps)
  qed
  then have "nx * (y + ny * z) \<le> nx * (ny * nz - 1)" using assms by (intro mult_left_mono) auto
  then show "x + nx * (y + ny * z) < nx * ny * nz" using assms by (simp add: algebra_simps)
qed

lemma wrap_back:
  fixes n x d :: int
  assumes "1 \<le> n" "0 \<le> x" "x < n"
  shows "((x + d) mod n - d) mod n = x" "((x + d) mod n - d) div n = - ((x + d) div n)"
proof -
  have e: "(x + d) mod n - d = x + (- ((x + d) div n)) * n"
    by (simp add: algebra_simps minus_div_mult_eq_mod[symmetric])
  have "(x + (- ((x + d) div n)) * n) mod n = x mod n" by (rule mod_mult_self1)
  then show "((x + d) mod n - d) mod n = x" using assms by (simp only: e mod_pos_pos_trivial)
  have "(x + (- ((x + d) div n)) * n) div n = - ((x + d) div n) + x div n"
    using assms by (intro div_mult_self1) auto
  then show "((x + d) mod n - d) div n = - ((x + d) div n)"
    using assms by (simp only: e div_pos_pos_trivial add_0_right)
qed

lemma mirror_bin:
  assumes n: "1 \<le> nx" "1 \<le> ny" "1 \<le> nz" and b: "b < nat (nx * ny * nz)"
  shows "nb1 (nx, ny, nz) b d < nat (nx * ny * nz)"
    and "nb1 (nx, ny, nz) (nb1 (nx, ny, nz) b d) (ineg d) = b"
    and "ws (nx, ny, nz) (nb1 (nx, ny, nz) b d) (ineg d) = ineg (ws (nx, ny, nz) b d)"
proof -
  obtain dx dy dz where d: "d = (dx, dy, dz)" by (cases d)
  obtain bx "by" bz where c: "coord nx ny b = (bx, by, bz)" by (cases "coord nx ny b")
  from coord_range[OF n b] c have r: "0 \<le> bx" "bx < nx" "0 \<le> by" "by < ny" "0 \<le> bz" "bz < nz" by auto
  define x1 where "x1 = (bx + dx) mod nx"
  define y1 where "y1 = (by + dy) mod ny"
  define z1 where "z1 = (bz + dz) mod nz"
  have r1: "0 \<le> x1" "x1 < nx" "0 \<le> y1" "y1 < ny" "0 \<le> z1" "z1 < nz"
    using n by (simp_all add: x1_def y1_def z1_def)
  have nb: "nb1 (nx, ny, nz) b d = nat (x1 + nx * (y1 + ny * z1))"
    by (simp add: nb1_def d c x1_def y1_def z1_def)
  from flat_bound[OF n r1] show "nb1 (nx, ny, nz) b d < nat (nx * ny * nz)"
    unfolding nb by simp
  have c1: "coord nx ny (nat (x1 + nx * (y1 + ny * z1))) = (x1, y1, z1)"
    using n r1 by (intro coord_flat) auto
  have fb: "bx + nx * (by + ny * bz) = int b" using flat_coord[OF n(1,2), of b] c by simp
  have w: "(x1 - dx) mod nx = bx" "(y1 - dy) mod ny = by" "(z1 - dz) mod nz = bz"
    "(x1 - dx) div nx = - ((bx + dx) div nx)" "(y1 - dy) div ny = - ((by + dy) div ny)"
    "(z1 - dz) div nz = - ((bz + dz) div nz)"
    unfolding x1_def y1_def z1_def using n r by (simp_all add: wrap_back)
  show "nb1 (nx, ny, nz) (nb1 (nx, ny, nz) b d) (ineg d) = b"
    unfolding nb by (simp add: nb1_def d c1 w fb)
  show "ws (nx, ny, nz) (nb1 (nx, ny, nz) b d) (ineg d) = ineg (ws (nx, ny, nz) b d)"
    unfolding nb by (simp add: ws_def d c1 w c)
qed

lemma offsets_neg: "d \<in> set (offsets nd) \<Longrightarrow> ineg d \<in> set (offsets nd)"
  by (cases nd; cases d) (auto simp: set_offsets)

lemma neighbor_rows_unfold:
  "neighbor_rows E a c si =
     bind (max_cutoff_of c) (\<lambda>mc.
     bind (make_bins (nat (vol (geom_nbins E a mc))) (map snd (geom_binned E a mc))) (\<lambda>(B, mx).
     bind (candidate_pairs (geom_nbins E a mc) (geom_nd E a mc) B mx) (\<lambda>cand.
       cutoff_filter E a c (post a si mc (map fst (geom_binned E a mc)) cand))))"
proof -
  obtain b1 b2 b3 where t: "transpose3 (pinv E (cell a)) = (b1, b2, b3)"
    by (cases "transpose3 (pinv E (cell a))")
  show ?thesis
    unfolding neighbor_rows_def t prod.case Let_def
    by (simp add: geom_nbins_def geom_nd_def geom_binned_def face_dists_def t vol_def post_def
        shift_row_def[abs_def] cong: if_cong)
qed


section \<open>Structure of neighbor\_list\<close>

lemma nbins_of_pos: "1 \<le> nbins_of fd mc"
  by (simp add: nbins_of_def)

lemma geom_nbins_pos:
  "geom_nbins E a mc = (nx, ny, nz) \<Longrightarrow> 1 \<le> nx \<and> 1 \<le> ny \<and> 1 \<le> nz"
  by (auto simp: geom_nbins_def nbins_of_pos split: prod.splits)

lemma wrap_bin_range:
  "1 \<le> n \<Longrightarrow> 0 \<le> snd (wrap_bin p n b) \<and> snd (wrap_bin p n b) < n"
  by (auto simp: wrap_bin_def)

lemma bin_of_range:
  assumes "1 \<le> nx" "1 \<le> ny" "1 \<le> nz"
  shows "0 \<le> snd (bin_of (nx, ny, nz) p s) \<and> snd (bin_of (nx, ny, nz) p s) < nx * ny * nz"
proof -
  obtain px py pz where p: "p = (px, py, pz)" by (cases p)
  obtain sx sy sz where s: "s = (sx, sy, sz)" by (cases s)
  define bx where "bx = snd (wrap_bin px nx \<lfloor>sx * of_int nx\<rfloor>)"
  define "by" where "by = snd (wrap_bin py ny \<lfloor>sy * of_int ny\<rfloor>)"
  define bz where "bz = snd (wrap_bin pz nz \<lfloor>sz * of_int nz\<rfloor>)"
  have r: "0 \<le> bx" "bx < nx" "0 \<le> by" "by < ny" "0 \<le> bz" "bz < nz"
    using assms wrap_bin_range by (simp_all add: bx_def by_def bz_def)
  have "snd (bin_of (nx, ny, nz) p s) = bx + nx * (by + ny * bz)"
    by (simp add: bin_of_def p s bx_def by_def bz_def split_beta Let_def)
  with flat_bound[OF assms r] show ?thesis by simp
qed

lemma geom_binned_range:
  "\<forall>k\<in>set (map snd (geom_binned E a mc)). 0 \<le> k \<and> k < int (nat (vol (geom_nbins E a mc)))"
proof -
  obtain nx ny nz where n: "geom_nbins E a mc = (nx, ny, nz)" by (cases "geom_nbins E a mc")
  from geom_nbins_pos[OF n] have pos: "1 \<le> nx" "1 \<le> ny" "1 \<le> nz" by auto
  have "0 \<le> nx * ny * nz" using pos by simp
  then show ?thesis using bin_of_range[OF pos]
    by (auto simp: geom_binned_def n vol_def)
qed

lemma length_geom_binned [simp]: "length (geom_binned E a mc) = length (positions a)"
  by (simp add: geom_binned_def get_scaled_positions_def)

lemma nd_of_nonneg:
  assumes "0 \<le> mc" "1 \<le> n"
  shows "0 \<le> nd_of mc n (1 / norm3 b)"
proof -
  have "0 \<le> dot3 b b" by (cases b) simp
  then have "0 \<le> norm3 b" by (simp add: norm3_def)
  then have "0 \<le> mc * of_int n / (1 / norm3 b)"
    using assms by (intro divide_nonneg_nonneg mult_nonneg_nonneg) auto
  then show ?thesis unfolding nd_of_def by (simp add: zero_le_ceiling)
qed

lemma zero_in_offsets:
  assumes "0 \<le> mc"
  shows "(0, 0, 0) \<in> set (offsets (geom_nd E a mc))"
proof -
  obtain b1 b2 b3 where t: "transpose3 (pinv E (cell a)) = (b1, b2, b3)"
    by (cases "transpose3 (pinv E (cell a))")
  show ?thesis
    using assms nd_of_nonneg[OF assms nbins_of_pos]
    by (simp add: geom_nd_def face_dists_def t set_offsets)
qed

lemma nb1_zero:
  assumes "1 \<le> nx" "1 \<le> ny" "1 \<le> nz" "b < nat (nx * ny * nz)"
  shows "nb1 (nx, ny, nz) b (0, 0, 0) = b" "ws (nx, ny, nz) b (0, 0, 0) = (0, 0, 0)"
proof -
  obtain bx "by" bz where c: "coord nx ny b = (bx, by, bz)" by (cases "coord nx ny b")
  from coord_range[OF assms] c have r: "0 \<le> bx" "bx < nx" "0 \<le> by" "by < ny" "0 \<le> bz" "bz < nz" by auto
  have fb: "bx + nx * (by + ny * bz) = int b" using flat_coord[OF assms(1,2), of b] c by simp
  show "nb1 (nx, ny, nz) b (0, 0, 0) = b" using r by (simp add: nb1_def c fb)
  show "ws (nx, ny, nz) b (0, 0, 0) = (0, 0, 0)" using r by (simp add: ws_def c)
qed

lemma candidate_pairs_ok:
  assumes n: "1 \<le> nx" "1 \<le> ny" "1 \<le> nz"
    and ok: "bins_ok (nat (nx * ny * nz)) ks B mx"
    and ks: "ks \<noteq> []" "\<forall>k\<in>set ks. 0 \<le> k \<and> k < int (nat (nx * ny * nz))"
    and z: "(0, 0, 0) \<in> set (offsets nd)"
  shows "\<exists>cand. candidate_pairs (nx, ny, nz) nd B mx = Inr cand"
proof -
  from ok have lB: "length B = nat (nx * ny * nz)"
    and p5: "\<And>a. a < length ks \<Longrightarrow> \<exists>c<mx. B ! nat (ks ! a) ! c = int a"
    by (auto simp: bins_ok_def)
  from ks have k0: "0 < length ks" by simp
  from p5[OF k0] obtain c where c: "c < mx" "B ! nat (ks ! 0) ! c = 0" by auto
  define b where "b = nat (ks ! 0)"
  have "ks ! 0 \<in> set ks" using k0 by simp
  with ks(2) have "0 \<le> ks ! 0 \<and> ks ! 0 < int (nat (nx * ny * nz))" by blast
  then have bl: "b < nat (nx * ny * nz)" by (simp only: b_def) arith
  have "(0, 0, (0, 0, 0)) \<in> set (slot_pairs (nx, ny, nz) B mx (0, 0, 0) b)"
    unfolding in_slot_pairs nb1_zero[OF n bl] using c by (auto simp: b_def)
  then have "(0, 0, (0, 0, 0)) \<in> set (offset_pairs (nx, ny, nz) B mx (0, 0, 0))"
    unfolding offset_pairs_eq[OF n lB] using bl lB by auto
  then have "offset_pairs (nx, ny, nz) B mx (0, 0, 0) \<noteq> []" by auto
  with z have "filter (\<lambda>blk. length blk > 0) (map (offset_pairs (nx, ny, nz) B mx) (offsets nd)) \<noteq> []"
    by (auto simp: filter_empty_conv)
  then show ?thesis by (simp add: candidate_pairs_def np_concatenate_def)
qed

lemma neighbor_rows_total:
  assumes N: "positions a \<noteq> []" and mc: "max_cutoff_of c = Inr mc" and nn: "0 \<le> mc"
  shows "\<exists>B mx cand.
     make_bins (nat (vol (geom_nbins E a mc))) (map snd (geom_binned E a mc)) = Inr (B, mx) \<and>
     bins_ok (nat (vol (geom_nbins E a mc))) (map snd (geom_binned E a mc)) B mx \<and>
     candidate_pairs (geom_nbins E a mc) (geom_nd E a mc) B mx = Inr cand \<and>
     neighbor_rows E a c si = cutoff_filter E a c (post a si mc (map fst (geom_binned E a mc)) cand)"
proof -
  obtain nx ny nz where n: "geom_nbins E a mc = (nx, ny, nz)" by (cases "geom_nbins E a mc")
  from geom_nbins_pos[OF n] have pos: "1 \<le> nx" "1 \<le> ny" "1 \<le> nz" by auto
  define ks where "ks = map snd (geom_binned E a mc)"
  have kne: "ks \<noteq> []" using N by (simp add: ks_def geom_binned_def get_scaled_positions_def)
  have krng: "\<forall>k\<in>set ks. 0 \<le> k \<and> k < int (nat (nx * ny * nz))"
    using geom_binned_range[of E a mc] by (simp add: ks_def n vol_def)
  from make_bins_spec[OF kne krng] obtain B mx where
    mb: "make_bins (nat (nx * ny * nz)) ks = Inr (B, mx)" and ok: "bins_ok (nat (nx * ny * nz)) ks B mx"
    by blast
  from candidate_pairs_ok[OF pos ok kne krng zero_in_offsets[OF nn]]
  obtain cand where cp: "candidate_pairs (nx, ny, nz) (geom_nd E a mc) B mx = Inr cand" by blast
  have "neighbor_rows E a c si = cutoff_filter E a c (post a si mc (map fst (geom_binned E a mc)) cand)"
    by (simp add: neighbor_rows_unfold mc n vol_def ks_def[symmetric] mb cp)
  with mb ok cp show ?thesis by (auto simp: n vol_def ks_def)
qed

lemma make_bins_nonempty: "make_bins nbins ks = Inr r \<Longrightarrow> ks \<noteq> []"
  by (auto simp: make_bins_def argsort_def bincount_def np_max_def Let_def)

lemma neighbor_rows_success:
  assumes "neighbor_rows E a c si = Inr rows"
  shows "\<exists>mc B mx cand. max_cutoff_of c = Inr mc \<and> positions a \<noteq> [] \<and>
     make_bins (nat (vol (geom_nbins E a mc))) (map snd (geom_binned E a mc)) = Inr (B, mx) \<and>
     bins_ok (nat (vol (geom_nbins E a mc))) (map snd (geom_binned E a mc)) B mx \<and>
     candidate_pairs (geom_nbins E a mc) (geom_nd E a mc) B mx = Inr cand \<and>
     cutoff_filter E a c (post a si mc (map fst (geom_binned E a mc)) cand) = Inr rows"
proof -
  from assms obtain mc where mc: "max_cutoff_of c = Inr mc"
    by (cases "max_cutoff_of c") (auto simp: neighbor_rows_unfold)
  define ks where "ks = map snd (geom_binned E a mc)"
  define n where "n = geom_nbins E a mc"
  from assms mc obtain B mx where mb: "make_bins (nat (vol n)) ks = Inr (B, mx)"
    by (cases "make_bins (nat (vol n)) ks") (auto simp: neighbor_rows_unfold ks_def n_def)
  from assms mc mb obtain cand where cp: "candidate_pairs n (geom_nd E a mc) B mx = Inr cand"
    by (cases "candidate_pairs n (geom_nd E a mc) B mx") (auto simp: neighbor_rows_unfold ks_def n_def)
  from assms mc mb cp have cf: "cutoff_filter E a c (post a si mc (map fst (geom_binned E a mc)) cand) = Inr rows"
    by (simp add: neighbor_rows_unfold ks_def n_def)
  have kne: "ks \<noteq> []" using mb by (rule make_bins_nonempty)
  then have N: "positions a \<noteq> []" by (auto simp: ks_def geom_binned_def get_scaled_positions_def)
  obtain nx ny nz where nn: "n = (nx, ny, nz)" by (cases n)
  have krng: "\<forall>k\<in>set ks. 0 \<le> k \<and> k < int (nat (vol n))"
    using geom_binned_range[of E a mc] by (simp add: ks_def n_def)
  from make_bins_spec[OF kne krng] mb have ok: "bins_ok (nat (vol n)) ks B mx" by auto
  from mc N mb ok cp cf show ?thesis unfolding ks_def n_def by blast
qed

lemma filter_unless: "(if \<not> c then filter P xs else xs) = filter (\<lambda>x. c \<or> P x) xs"
  by simp

lemma drop_crossing_eq:
  "drop_crossing p rows = filter (\<lambda>(i, j, S). stays_inside p S) rows"
proof -
  obtain px py pz where p: "p = (px, py, pz)" by (cases p)
  have e: "(\<lambda>x. (px \<or> (case x of (i, j, sx, sy, sz) \<Rightarrow> sx = 0)) \<and>
                (py \<or> (case x of (i, j, sx, sy, sz) \<Rightarrow> sy = 0)) \<and>
                (pz \<or> (case x of (i, j, sx, sy, sz) \<Rightarrow> sz = 0)))
         = (\<lambda>(i, j, S). stays_inside (px, py, pz) S)"
    by (simp add: fun_eq_iff)
  have "drop_crossing p rows =
      filter (\<lambda>x. pz \<or> (case x of (i, j, sx, sy, sz) \<Rightarrow> sz = 0))
        (filter (\<lambda>x. py \<or> (case x of (i, j, sx, sy, sz) \<Rightarrow> sy = 0))
           (filter (\<lambda>x. px \<or> (case x of (i, j, sx, sy, sz) \<Rightarrow> sx = 0)) rows))"
    unfolding drop_crossing_def p prod.case Let_def filter_unless ..
  also have "\<dots> = filter (\<lambda>(i, j, S). stays_inside (px, py, pz) S) rows"
    unfolding filter_filter e[symmetric] by (simp add: conj_ac)
  finally show ?thesis by (simp add: p)
qed

lemma post_eq:
  "post a si mc cs cand =
     filter (\<lambda>(i, j, S, dr, dist). dist < mc)
       (map (with_distance a) (sort_key fst (filter (keep_row si (pbc a)) (map (shift_row cs) cand))))"
proof -
  have "filter (\<lambda>(i, j, S). stays_inside p S) (filter (\<lambda>(i, j, S). \<not> (i = j \<and> S = (0, 0, 0))) xs)
      = filter (keep_row False p) xs" for p and xs :: "(int \<times> int \<times> ivec3) list"
    by (induction xs) (auto simp: keep_row_def)
  moreover have "filter (\<lambda>(i, j, S). stays_inside p S) xs = filter (keep_row True p) xs"
    for p and xs :: "(int \<times> int \<times> ivec3) list"
    by (induction xs) (auto simp: keep_row_def)
  ultimately show ?thesis
    by (cases si) (simp_all add: post_def drop_crossing_eq)
qed

lemma in_post:
  "r \<in> set (post a si mc cs cand) \<longleftrightarrow>
     (\<exists>t\<in>set cand. keep_row si (pbc a) (shift_row cs t) \<and> r = with_distance a (shift_row cs t) \<and>
        (case r of (i, j, S, dr, dd) \<Rightarrow> dd < mc))"
proof -
  define K where "K = keep_row si (pbc a)"
  define P where "P = (\<lambda>r :: row. case r of (i, j, S, dr, dd) \<Rightarrow> dd < mc)"
  have "set (post a si mc cs cand) = {r \<in> with_distance a ` set (filter K (map (shift_row cs) cand)). P r}"
    unfolding post_eq K_def P_def by (simp only: set_filter set_map set_sort)
  also have "set (filter K (map (shift_row cs) cand)) = {t' \<in> shift_row cs ` set cand. K t'}"
    by (simp only: set_filter set_map)
  finally have "r \<in> set (post a si mc cs cand) \<longleftrightarrow>
      r \<in> with_distance a ` {t' \<in> shift_row cs ` set cand. K t'} \<and> P r"
    by (simp only: mem_Collect_eq)
  also have "\<dots> \<longleftrightarrow> (\<exists>t\<in>set cand. K (shift_row cs t) \<and> r = with_distance a (shift_row cs t) \<and> P r)"
  proof
    assume h: "r \<in> with_distance a ` {t' \<in> shift_row cs ` set cand. K t'} \<and> P r"
    then obtain t' where "t' \<in> shift_row cs ` set cand" "K t'" "r = with_distance a t'" by fast
    then obtain t where "t \<in> set cand" "K (shift_row cs t)" "r = with_distance a (shift_row cs t)" by fast
    with h show "\<exists>t\<in>set cand. K (shift_row cs t) \<and> r = with_distance a (shift_row cs t) \<and> P r"
      by fast
  next
    assume "\<exists>t\<in>set cand. K (shift_row cs t) \<and> r = with_distance a (shift_row cs t) \<and> P r"
    then obtain t where t: "t \<in> set cand" "K (shift_row cs t)" "r = with_distance a (shift_row cs t)" "P r"
      by fast
    from t(1,2) have "shift_row cs t \<in> {t' \<in> shift_row cs ` set cand. K t'}" by simp
    then have "with_distance a (shift_row cs t) \<in> with_distance a ` {t' \<in> shift_row cs ` set cand. K t'}"
      by (rule imageI)
    with t(3,4) show "r \<in> with_distance a ` {t' \<in> shift_row cs ` set cand. K t'} \<and> P r" by simp
  qed
  finally show ?thesis unfolding K_def P_def .
qed

lemma with_distance_props:
  "with_distance a (i, j, S) = (i', j', S', D, d) \<Longrightarrow>
     i' = i \<and> j' = j \<and> S' = S \<and>
     D = vadd (vsub (positions a ! nat j) (positions a ! nat i)) (vecmat (of_ivec S) (cell a)) \<and>
     d = sqrt (dot3 D D)"
  by (auto simp: with_distance_def Let_def)

lemma cand_indices:
  assumes n: "geom_nbins E a mc = (nx, ny, nz)"
    and ok: "bins_ok (nat (nx * ny * nz)) ks B mx"
    and cp: "candidate_pairs (nx, ny, nz) nd B mx = Inr cand"
    and t: "(i, j, S) \<in> set cand"
  shows "0 \<le> i \<and> i < int (length ks) \<and> 0 \<le> j \<and> j < int (length ks)"
proof -
  from geom_nbins_pos[OF n] have pos: "1 \<le> nx" "1 \<le> ny" "1 \<le> nz" by auto
  from ok have lB: "length B = nat (nx * ny * nz)"
    and p4: "\<And>r c. r < nat (nx * ny * nz) \<Longrightarrow> c < mx \<Longrightarrow> B ! r ! c \<noteq> - 1 \<Longrightarrow>
        0 \<le> B ! r ! c \<and> B ! r ! c < int (length ks)"
    by (auto simp: bins_ok_def)
  from t obtain d b p q where d: "b < length B" "p < mx" "q < mx"
    "i = B ! b ! p" "j = B ! nb1 (nx, ny, nz) b d ! q" "i \<noteq> - 1" "j \<noteq> - 1"
    unfolding candidate_pairs_set[OF pos lB cp] by blast
  have b1: "nb1 (nx, ny, nz) b d < nat (nx * ny * nz)"
    using mirror_bin(1)[OF pos] d(1) lB by simp
  from p4[of b p] p4[OF b1, of q] d lB show ?thesis by simp
qed

lemma assemble_all: "assemble rows ''ijSDd'' = Inr (all_columns rows)"
  by (simp add: quantity_def all_columns_def)


section \<open>Distances of the returned pairs\<close>

lemma neighbor_rows_scalar_total:
  assumes "positions a \<noteq> []" "0 \<le> c"
  shows "\<exists>rows. neighbor_rows E a (Scalar c) si = Inr rows"
proof -
  have mc: "max_cutoff_of (Scalar c) = Inr c" by (simp add: max_cutoff_of_def)
  from neighbor_rows_total[OF assms(1) mc assms(2), of E si] show ?thesis
    by (auto simp: cutoff_filter_def)
qed

text \<open>
  Claim C1. Every pair that \<open>neighbor_list\<close> returns for a scalar cutoff \<open>c\<close> has the
  displacement vector \<open>position[j] - position[i] + S . cell\<close>, its distance is the Euclidean
  norm of that vector, and the distance is strictly below \<open>c\<close>; so no pair at distance
  \<open>c\<close> or more is returned. The indices of the pair are indices of particles.
\<close>

theorem neighbor_list_scalar_rows:
  assumes "neighbor_list E ''ijSDd'' a (Scalar c) si = Inr cols"
  shows "\<exists>rows. cols = all_columns rows \<and>
     (\<forall>(i, j, S, D, d) \<in> set rows.
        0 \<le> i \<and> i < int (length (positions a)) \<and> 0 \<le> j \<and> j < int (length (positions a)) \<and>
        D = vadd (vsub (positions a ! nat j) (positions a ! nat i)) (vecmat (of_ivec S) (cell a)) \<and>
        d = sqrt (dot3 D D) \<and> d < c)"
proof -
  from assms have "bind (neighbor_rows E a (Scalar c) si) (\<lambda>rows. Inr (all_columns rows)) = Inr cols"
    by (simp only: neighbor_list_def assemble_all)
  then obtain rows where nr: "neighbor_rows E a (Scalar c) si = Inr rows"
    and cols: "cols = all_columns rows"
    by (cases "neighbor_rows E a (Scalar c) si") auto
  from neighbor_rows_success[OF nr] obtain mc B mx cand where
    mc: "max_cutoff_of (Scalar c) = Inr mc"
    and ok: "bins_ok (nat (vol (geom_nbins E a mc))) (map snd (geom_binned E a mc)) B mx"
    and cp: "candidate_pairs (geom_nbins E a mc) (geom_nd E a mc) B mx = Inr cand"
    and cf: "cutoff_filter E a (Scalar c) (post a si mc (map fst (geom_binned E a mc)) cand) = Inr rows"
    by blast
  from mc have mcc: "mc = c" by (simp add: max_cutoff_of_def)
  from cf have rows: "rows = post a si c (map fst (geom_binned E a c)) cand"
    by (simp add: cutoff_filter_def mcc)
  obtain nx ny nz where n: "geom_nbins E a c = (nx, ny, nz)" by (cases "geom_nbins E a c")
  have "0 \<le> i \<and> i < int (length (positions a)) \<and> 0 \<le> j \<and> j < int (length (positions a)) \<and>
        D = vadd (vsub (positions a ! nat j) (positions a ! nat i)) (vecmat (of_ivec S) (cell a)) \<and>
        d = sqrt (dot3 D D) \<and> d < c" if r: "(i, j, S, D, d) \<in> set rows" for i j S D d
  proof -
    from r obtain t where t: "t \<in> set cand"
      "(i, j, S, D, d) = with_distance a (shift_row (map fst (geom_binned E a c)) t)" "d < c"
      unfolding rows in_post by auto
    obtain i0 j0 S0 where t0: "t = (i0, j0, S0)" by (cases t)
    from cand_indices[OF n ok[unfolded mcc n vol_def prod.case] cp[unfolded mcc n]] t(1) t0
    have idx: "0 \<le> i0 \<and> i0 < int (length (positions a)) \<and> 0 \<le> j0 \<and> j0 < int (length (positions a))"
      by simp
    from t(2) have "with_distance a (i0, j0, iadd S0 (isub (map fst (geom_binned E a c) ! nat i0)
        (map fst (geom_binned E a c) ! nat j0))) = (i, j, S, D, d)"
      by (simp add: t0 shift_row_def)
    from with_distance_props[OF this] idx t(3) show ?thesis by simp
  qed
  with cols show ?thesis by blast
qed

theorem neighbor_list_scalar_rows_witness:
  "\<exists>cols rows. neighbor_list ext_unit_cell ''ijSDd'' two_atoms (Scalar 3) False = Inr cols \<and>
     cols = all_columns rows \<and>
     (\<forall>(i, j, S, D, d) \<in> set rows.
        0 \<le> i \<and> i < int (length (positions two_atoms)) \<and>
        0 \<le> j \<and> j < int (length (positions two_atoms)) \<and>
        D = vadd (vsub (positions two_atoms ! nat j) (positions two_atoms ! nat i))
              (vecmat (of_ivec S) (cell two_atoms)) \<and>
        d = sqrt (dot3 D D) \<and> d < 3)"
proof -
  have "positions two_atoms \<noteq> []" by (simp add: two_atoms_def)
  from neighbor_rows_scalar_total[OF this, of 3 ext_unit_cell False]
  obtain rows0 where "neighbor_rows ext_unit_cell two_atoms (Scalar 3) False = Inr rows0" by auto
  then have "neighbor_list ext_unit_cell ''ijSDd'' two_atoms (Scalar 3) False = Inr (all_columns rows0)"
    by (simp only: neighbor_list_def assemble_all bind_Inr)
  from this neighbor_list_scalar_rows[OF this] show ?thesis by blast
qed

section \<open>Calls that raise\<close>

text \<open>
  Claim C10. Before any call of \<open>update\<close> or \<open>build\<close> the attributes that hold the pairs
  and the index do not exist, so \<open>get_neighbors\<close> raises \<open>AttributeError\<close>, for
  \<open>NeighborList\<close> and for \<open>PrimitiveNeighborList\<close> alike, whatever the particle index.
\<close>

theorem get_neighbors_before_build:
  "get_neighbors (NeighborList_init cs sk so si bw) k = Inl AttributeError \<and>
   get_neighbors_p (PrimitiveNeighborList_init cs sk so si bw us) k = Inl AttributeError"
  by (simp add: get_neighbors_def NeighborList_init_def get_neighbors_p_def PrimitiveNeighborList_init_def)

lemma make_bins_empty: "make_bins n [] = Inl ValueError"
  by (simp add: make_bins_def argsort_def bincount_def np_max_def)

text \<open>
  Claim C8 says that a configuration without particles yields an empty result. In the
  code the maximum of the empty bin count raises \<open>ValueError\<close> (line 183), whatever the
  requested quantities and the scalar cutoff are.
\<close>

theorem neighbor_list_no_particles:
  "neighbor_list E q (a\<lparr>positions := []\<rparr>) (Scalar c) si = Inl ValueError"
  by (simp add: neighbor_list_def neighbor_rows_unfold max_cutoff_of_def geom_binned_def
      get_scaled_positions_def make_bins_empty)

lemma np_max_empty: "np_max [] = Inl ValueError"
  by (simp add: np_max_def)

lemma build_no_particles:
  "build E (NeighborList_init [] sk so si bw) (a\<lparr>positions := []\<rparr>) = Inl ValueError"
  by (simp add: build_def NeighborList_init_def neighbor_list_def neighbor_rows_unfold
      max_cutoff_of_def np_max_empty)


section \<open>Repeated updates\<close>

lemma max_sq_displacement_same:
  "ps \<noteq> [] \<Longrightarrow> max_sq_displacement ps ps = Inr 0"
proof -
  assume ne: "ps \<noteq> []"
  have "map2 sq_dist ps ps = map (\<lambda>p. 0) ps"
    by (induction ps) (auto simp: sq_dist_def split: prod.splits)
  then have "set (map2 sq_dist ps ps) = {0}" using ne by (cases ps) auto
  then show ?thesis using ne by (simp add: max_sq_displacement_def np_max_def)
qed

lemma max_sq_displacement_empty: "max_sq_displacement [] [] = Inl ValueError"
  by (simp add: max_sq_displacement_def np_max_def)

lemma any_differs_same [simp]: "\<not> any_differs p p"
  by (cases p) simp

lemma build_snapshot:
  assumes "build E self a = Inr self1"
  shows "pbc_nl self1 = Some (pbc a) \<and> cell_nl self1 = Some (cell a) \<and>
         positions_nl self1 = Some (positions a) \<and> nupdates self1 = nupdates self + 1 \<and>
         skin self1 = skin self \<and> positions a \<noteq> []"
proof -
  from assms obtain cols where nl: "neighbor_list E ''ijS'' a (PerAtom (cutoffs self)) (self_interaction self) = Inr cols"
    by (cases "neighbor_list E ''ijS'' a (PerAtom (cutoffs self)) (self_interaction self)")
       (auto simp: build_def)
  then obtain rows where "neighbor_rows E a (PerAtom (cutoffs self)) (self_interaction self) = Inr rows"
    by (cases "neighbor_rows E a (PerAtom (cutoffs self)) (self_interaction self)")
       (auto simp: neighbor_list_def)
  from neighbor_rows_success[OF this] have ne: "positions a \<noteq> []" by blast
  from assms nl show ?thesis using ne
    by (auto simp: build_def Let_def bind_def split: list.splits column.splits sum.splits)
qed

lemma update_twice:
  assumes "nupdates self = 0" and "update E self a = Inr (self1, r)"
  shows "r = True \<and> build E self a = Inr self1 \<and> update E self1 a = Inr (self1, False)"
proof -
  from assms have b: "build E self a = Inr self1" and r: "r = True"
    by (auto simp: update_def bind_def split: sum.splits)
  from build_snapshot[OF b] assms(1) have s: "pbc_nl self1 = Some (pbc a)" "cell_nl self1 = Some (cell a)"
    "positions_nl self1 = Some (positions a)" "nupdates self1 \<noteq> 0" "positions a \<noteq> []"
    by auto
  have "update E self1 a = Inr (self1, False)"
    using s by (simp add: update_def max_sq_displacement_same)
  with b r show ?thesis by simp
qed

lemma build_p_snapshot:
  assumes "build_p E self p c xs = Inr self1"
  shows "pbc_p self1 = Some p \<and> cell_p self1 = Some c \<and> coordinates_p self1 = Some xs \<and>
         nupdates_p self1 = nupdates_p self + 1 \<and> skin_p self1 = skin_p self"
  using assms
  by (auto simp: build_p_def Let_def bind_def split: if_splits prod.splits sum.splits)

lemma update_p_twice:
  assumes "nupdates_p self = 0" and "update_p E self p c xs = Inr (self1, r)" and "xs \<noteq> []"
  shows "r = True \<and> build_p E self p c xs = Inr self1 \<and> update_p E self1 p c xs = Inr (self1, False)"
proof -
  from assms have b: "build_p E self p c xs = Inr self1" and r: "r = True"
    by (auto simp: update_p_def bind_def split: sum.splits)
  from build_p_snapshot[OF b] assms(1) have s: "pbc_p self1 = Some p" "cell_p self1 = Some c"
    "coordinates_p self1 = Some xs" "nupdates_p self1 \<noteq> 0"
    by auto
  have "update_p E self1 p c xs = Inr (self1, False)"
    using s assms(3) by (simp add: update_p_def max_sq_displacement_same)
  with b r show ?thesis by simp
qed

text \<open>
  Claim C7 on a configuration without particles: the first \<open>update\<close> of a
  \<open>PrimitiveNeighborList\<close> builds and returns true, and the second one, with the same
  arguments, raises \<open>ValueError\<close> from the maximum over the empty displacement array
  (line 588) instead of returning false. With at least one particle the second call
  returns false and leaves the object as it is (\<open>update_twice\<close>, \<open>update_p_twice\<close>).
\<close>

theorem update_p_no_particles:
  "\<exists>self1. update_p E (PrimitiveNeighborList_init [] sk so si bw us) (False, False, False) c [] = Inr (self1, True) \<and>
     update_p E self1 (False, False, False) c [] = Inl ValueError"
proof -
  let ?s = "PrimitiveNeighborList_init [] sk so si bw us"
  have n0: "nupdates_p ?s = 0" by (simp add: PrimitiveNeighborList_init_def)
  have "\<exists>self1. build_p E ?s (False, False, False) c [] = Inr self1"
    by (simp add: build_p_def PrimitiveNeighborList_init_def Let_def axis_images_def split: prod.splits)
  then obtain self1 where b: "build_p E ?s (False, False, False) c [] = Inr self1" by blast
  from build_p_snapshot[OF b] n0 have s: "pbc_p self1 = Some (False, False, False)" "cell_p self1 = Some c"
    "coordinates_p self1 = Some []" "nupdates_p self1 \<noteq> 0"
    by auto
  have 1: "update_p E ?s (False, False, False) c [] = Inr (self1, True)"
    using n0 b by (simp add: update_p_def)
  have 2: "update_p E self1 (False, False, False) c [] = Inl ValueError"
    using s by (simp add: update_p_def max_sq_displacement_empty)
  from 1 2 show ?thesis by blast
qed


section \<open>Pair-cutoff dictionaries\<close>




lemma in_post_indices:
  assumes "\<forall>(i, j, S) \<in> set cand. P i j" "(i, j, S, D, d) \<in> set (post a si mc cs cand)"
  shows "P i j \<and> 0 \<le> d"
proof -
  from assms(2) obtain t where t: "t \<in> set cand" "(i, j, S, D, d) = with_distance a (shift_row cs t)"
    unfolding in_post by blast
  obtain i0 j0 S0 where t0: "t = (i0, j0, S0)" by (cases t)
  from t(2) have "i = i0" "j = j0" "d = sqrt (dot3 D D)"
    by (auto simp: t0 shift_row_def with_distance_def Let_def)
  with assms(1) t(1) t0 show ?thesis by (cases D) auto
qed





section \<open>Symmetry of the full list\<close>

lemma cand_mirror:
  assumes n: "1 \<le> nx" "1 \<le> ny" "1 \<le> nz" and lB: "length B = nat (nx * ny * nz)"
    and cp: "candidate_pairs (nx, ny, nz) nd B mx = Inr cand"
    and t: "(i, j, S) \<in> set cand"
  shows "(j, i, ineg S) \<in> set cand"
proof -
  from t obtain d b p q where d: "d \<in> set (offsets nd)" "b < length B" "p < mx" "q < mx"
    "i = B ! b ! p" "j = B ! nb1 (nx, ny, nz) b d ! q" "S = ws (nx, ny, nz) b d" "i \<noteq> - 1" "j \<noteq> - 1"
    unfolding candidate_pairs_set[OF n lB cp] by blast
  from d(2) lB have bl: "b < nat (nx * ny * nz)" by simp
  note m = mirror_bin[OF n bl, of d]
  have a1: "j = B ! nb1 (nx, ny, nz) b d ! q" by (rule d)
  have a2: "i = B ! nb1 (nx, ny, nz) (nb1 (nx, ny, nz) b d) (ineg d) ! p" using d(5) m(2) by simp
  have a3: "ineg S = ws (nx, ny, nz) (nb1 (nx, ny, nz) b d) (ineg d)" using d(7) m(3) by simp
  have a4: "nb1 (nx, ny, nz) b d < length B" using m(1) lB by simp
  show ?thesis unfolding candidate_pairs_set[OF n lB cp]
    using offsets_neg[OF d(1)] a4 d(3,4,8,9) a1 a2 a3 by blast
qed

lemma ineg_simps [simp]: "ineg (0, 0, 0) = (0, 0, 0)" "ineg (ineg S) = S"
  by (cases S; simp)+

lemma ineg_eq_zero [simp]: "ineg S = (0, 0, 0) \<longleftrightarrow> S = (0, 0, 0)"
  by (cases S) auto

lemma shift_row_mirror:
  "shift_row cs (j, i, ineg S) = (case shift_row cs (i, j, S) of (i', j', S') \<Rightarrow> (j', i', ineg S'))"
  by (cases S; cases "cs ! nat i"; cases "cs ! nat j") (simp add: shift_row_def)

lemma stays_inside_ineg [simp]: "stays_inside p (ineg S) = stays_inside p S"
  by (cases p; cases S) simp

lemma keep_row_mirror: "keep_row si p (j, i, ineg S) = keep_row si p (i, j, S)"
  by (auto simp: keep_row_def)

lemma vecmat_ineg: "vecmat (of_ivec (ineg S)) c = vneg (vecmat (of_ivec S) c)"
proof -
  obtain sx sy sz where S: "S = (sx, sy, sz)" by (cases S)
  obtain c1 c2 c3 c4 c5 c6 c7 c8 c9 where c: "c = ((c1, c2, c3), (c4, c5, c6), (c7, c8, c9))"
    by (metis prod_cases3)
  show ?thesis by (simp add: S c)
qed

lemma vsub_swap: "vsub p q = vneg (vsub q p)"
  by (cases p; cases q) simp

lemma vadd_vneg: "vadd (vneg u) (vneg v) = vneg (vadd u v)"
  by (cases u; cases v) simp

lemma dot3_vneg: "dot3 (vneg u) (vneg u) = dot3 u u"
  by (cases u) simp

lemma with_distance_mirror:
  assumes "with_distance a (i, j, S) = (i', j', S', D, d)"
  shows "with_distance a (j, i, ineg S) = (j, i, ineg S, vneg D, d)"
proof -
  let ?D = "vadd (vsub (positions a ! nat j) (positions a ! nat i)) (vecmat (of_ivec S) (cell a))"
  from assms have D: "D = ?D" and d: "d = sqrt (dot3 ?D ?D)"
    by (auto simp: with_distance_def Let_def)
  have "vadd (vsub (positions a ! nat i) (positions a ! nat j)) (vecmat (of_ivec (ineg S)) (cell a)) = vneg ?D"
    by (simp only: vecmat_ineg vsub_swap[of "positions a ! nat i"] vadd_vneg)
  then show ?thesis
    by (simp add: with_distance_def Let_def D d dot3_vneg)
qed

lemma post_mirror:
  assumes "(i, j, S, D, d) \<in> set (post a si mc cs cand)"
    and cm: "\<And>i j S. (i, j, S) \<in> set cand \<Longrightarrow> (j, i, ineg S) \<in> set cand"
  shows "(j, i, ineg S, vneg D, d) \<in> set (post a si mc cs cand)"
proof -
  from assms(1) obtain t where t: "t \<in> set cand" "keep_row si (pbc a) (shift_row cs t)"
    "(i, j, S, D, d) = with_distance a (shift_row cs t)" "d < mc"
    unfolding in_post by auto
  obtain i0 j0 S0 where t0: "t = (i0, j0, S0)" by (cases t)
  obtain i1 j1 S1 where s1: "shift_row cs (i0, j0, S0) = (i1, j1, S1)" by (cases "shift_row cs (i0, j0, S0)")
  from t(3) have wd: "with_distance a (i1, j1, S1) = (i, j, S, D, d)" by (simp add: t0 s1)
  from with_distance_props[OF wd] have e: "i1 = i" "j1 = j" "S1 = S" by auto
  have sm: "shift_row cs (j0, i0, ineg S0) = (j, i, ineg S)"
    using shift_row_mirror[of cs j0 i0 S0] by (simp add: s1 e)
  have k: "keep_row si (pbc a) (j, i, ineg S)"
    using t(2) by (simp add: t0 s1 e keep_row_mirror)
  have w: "with_distance a (j, i, ineg S) = (j, i, ineg S, vneg D, d)"
    using with_distance_mirror[OF wd[unfolded e]] .
  from cm[OF t(1)[unfolded t0]] have "(j0, i0, ineg S0) \<in> set cand" .
  then show ?thesis unfolding in_post
    by (intro bexI[where x="(j0, i0, ineg S0)"]) (simp_all add: sm k w t(4))
qed

lemma item_mask_sym: "item_mask e1 e2 ni nj = item_mask e1 e2 nj ni"
  by (auto simp: item_mask_def)

lemma per_pair_cutoff_sym: "per_pair_cutoff E d ni nj = per_pair_cutoff E d nj ni"
proof -
  have "(\<lambda>((el1, el2), c) v. if item_mask (resolve E el1) (resolve E el2) ni nj then c else v)
      = (\<lambda>((el1, el2), c) v. if item_mask (resolve E el1) (resolve E el2) nj ni then c else (v::real))"
    by (simp add: item_mask_sym[of _ _ ni nj])
  then show ?thesis by (simp add: per_pair_cutoff_def)
qed

lemma take_items_Inr: "take_items xs ks = Inr vs \<Longrightarrow> vs = map (item xs) ks"
proof (induction ks arbitrary: vs)
  case Nil
  then show ?case by simp
next
  case (Cons k ks)
  from Cons.prems obtain v vs' where g: "get_item xs k = Inr v" and r: "take_items xs ks = Inr vs'"
    and vs: "vs = v # vs'"
    by (auto simp: bind_def split: sum.splits)
  from Cons.IH[OF r] g vs show ?case by (simp add: item_def)
qed

lemma per_atom_filter:
  "map fst (filter (\<lambda>((i, j, S, dr, dd), ri, rj). dd < ri + rj)
      (zip rows (zip (map (item rs) (map (\<lambda>(i, j, S, dr, dd). i) rows))
                     (map (item rs) (map (\<lambda>(i, j, S, dr, dd). j) rows)))))
   = filter (\<lambda>(i, j, S, dr, dd). dd < item rs i + item rs j) rows"
  by (induction rows) auto

lemma cutoff_filter_PerAtom:
  assumes "cutoff_filter E a (PerAtom rs) rows = Inr rows'"
  shows "rows' = filter (\<lambda>(i, j, S, dr, dd). dd < item rs i + item rs j) rows"
proof -
  from assms obtain ci cj where ci: "take_items rs (map (\<lambda>(i, j, S, dr, dd). i) rows) = Inr ci"
    and cj: "take_items rs (map (\<lambda>(i, j, S, dr, dd). j) rows) = Inr cj"
    and r: "rows' = map fst (filter (\<lambda>((i, j, S, dr, dd), ri, rj). dd < ri + rj) (zip rows (zip ci cj)))"
    by (auto simp: cutoff_filter_def bind_def split: sum.splits)
  show ?thesis unfolding r take_items_Inr[OF ci] take_items_Inr[OF cj] by (rule per_atom_filter)
qed

lemma cutoff_filter_sym:
  assumes "cutoff_filter E a c rows = Inr rows'"
  shows "\<exists>P. rows' = filter (\<lambda>(i, j, S, dr, dd). P i j dd) rows \<and> (\<forall>i j dd. P i j dd = P j i dd)"
proof (cases c)
  case (Scalar x)
  with assms have "rows' = filter (\<lambda>(i, j, S, dr, dd). True) rows" by (simp add: cutoff_filter_def split_def)
  then show ?thesis by (intro exI[where x="\<lambda>i j dd. True"]) simp
next
  case (PairDict d)
  with assms have "rows' = filter (\<lambda>(i, j, S, dr, dd). dd < per_pair_cutoff E d (numbers a ! nat i) (numbers a ! nat j)) rows"
    by (simp add: cutoff_filter_def)
  moreover have "\<forall>i j dd. (dd < per_pair_cutoff E d (numbers a ! nat i) (numbers a ! nat j))
       = (dd < per_pair_cutoff E d (numbers a ! nat j) (numbers a ! nat i))"
    by (simp add: per_pair_cutoff_sym)
  ultimately show ?thesis
    by (intro exI[where x="\<lambda>i j dd. dd < per_pair_cutoff E d (numbers a ! nat i) (numbers a ! nat j)"]) simp
next
  case (PerAtom rs)
  with assms have "rows' = filter (\<lambda>(i, j, S, dr, dd). dd < item rs i + item rs j) rows"
    by (simp add: cutoff_filter_PerAtom)
  moreover have "\<forall>i j dd. (dd < item rs i + item rs j) = (dd < item rs j + item rs i)"
    by (simp add: add.commute)
  ultimately show ?thesis
    by (intro exI[where x="\<lambda>i j dd. dd < item rs i + item rs j"]) simp
qed

lemma neighbor_rows_mirror:
  assumes "neighbor_rows E a c si = Inr rows" and "(i, j, S, D, d) \<in> set rows"
  shows "(j, i, ineg S, vneg D, d) \<in> set rows"
proof -
  from neighbor_rows_success[OF assms(1)] obtain mc B mx cand where
    ok: "bins_ok (nat (vol (geom_nbins E a mc))) (map snd (geom_binned E a mc)) B mx"
    and cp: "candidate_pairs (geom_nbins E a mc) (geom_nd E a mc) B mx = Inr cand"
    and cf: "cutoff_filter E a c (post a si mc (map fst (geom_binned E a mc)) cand) = Inr rows"
    by blast
  obtain nx ny nz where n: "geom_nbins E a mc = (nx, ny, nz)" by (cases "geom_nbins E a mc")
  from geom_nbins_pos[OF n] have pos: "1 \<le> nx" "1 \<le> ny" "1 \<le> nz" by auto
  from ok have lB: "length B = nat (nx * ny * nz)" by (simp add: bins_ok_def n vol_def)
  note cm = cand_mirror[OF pos lB cp[unfolded n]]
  from cutoff_filter_sym[OF cf] obtain P where
    P: "rows = filter (\<lambda>(i, j, S, dr, dd). P i j dd) (post a si mc (map fst (geom_binned E a mc)) cand)"
    and sym: "\<And>i j dd. P i j dd = P j i dd" by blast
  from assms(2) have inp: "(i, j, S, D, d) \<in> set (post a si mc (map fst (geom_binned E a mc)) cand)"
    and p: "P i j d" unfolding P by auto
  from post_mirror[OF inp cm] have "(j, i, ineg S, vneg D, d) \<in> set (post a si mc (map fst (geom_binned E a mc)) cand)"
    by blast
  with p sym[of i j d] show ?thesis unfolding P by simp
qed

text \<open>
  Claim C2. For every pair \<open>(i, j, S)\<close> in the output of \<open>neighbor_list\<close> the mirror pair
  \<open>(j, i, -S)\<close> is in the output too, with the same distance (and the opposite
  displacement vector). This holds for every kind of cutoff.
\<close>

theorem neighbor_list_symmetric:
  assumes "neighbor_list E ''ijSDd'' a c si = Inr cols"
  shows "\<exists>rows. cols = all_columns rows \<and>
     (\<forall>(i, j, S, D, d) \<in> set rows. (j, i, ineg S, vneg D, d) \<in> set rows)"
proof -
  from assms have "bind (neighbor_rows E a c si) (\<lambda>rows. Inr (all_columns rows)) = Inr cols"
    by (simp only: neighbor_list_def assemble_all)
  then obtain rows where nr: "neighbor_rows E a c si = Inr rows" and cols: "cols = all_columns rows"
    by (cases "neighbor_rows E a c si") auto
  from neighbor_rows_mirror[OF nr] cols show ?thesis by blast
qed

theorem neighbor_list_symmetric_witness:
  "\<exists>cols rows. neighbor_list ext_unit_cell ''ijSDd'' two_atoms (Scalar 3) True = Inr cols \<and>
     cols = all_columns rows \<and>
     (\<forall>(i, j, S, D, d) \<in> set rows. (j, i, ineg S, vneg D, d) \<in> set rows)"
proof -
  have "positions two_atoms \<noteq> []" by (simp add: two_atoms_def)
  from neighbor_rows_scalar_total[OF this, of 3 ext_unit_cell True]
  obtain rows0 where "neighbor_rows ext_unit_cell two_atoms (Scalar 3) True = Inr rows0" by auto
  then have "neighbor_list ext_unit_cell ''ijSDd'' two_atoms (Scalar 3) True = Inr (all_columns rows0)"
    by (simp only: neighbor_list_def assemble_all bind_Inr)
  from this neighbor_list_symmetric[OF this] show ?thesis by blast
qed


section \<open>The half list of NeighborList.build\<close>

lemma half_mask_canonical: "half_mask r = canonical r"
  by (cases r) (auto simp: canonical_def)

lemma first_nonzero_positive_ineg:
  "S \<noteq> (0, 0, 0) \<Longrightarrow> first_nonzero_positive (ineg S) = (\<not> first_nonzero_positive S)"
proof -
  obtain sx sy sz where S: "S = (sx, sy, sz)" by (cases S)
  assume "S \<noteq> (0, 0, 0)"
  then have "sx \<noteq> 0 \<or> sy \<noteq> 0 \<or> sz \<noteq> 0" by (simp add: S)
  then show ?thesis unfolding S ineg.simps first_nonzero_positive.simps by arith
qed

lemma canonical_mirror:
  assumes "(i, j, S) \<noteq> (j, i, ineg S)"
  shows "canonical (i, j, S) \<noteq> canonical (j, i, ineg S)"
proof (cases "S = (0, 0, 0)")
  case True
  from assms[unfolded True ineg_simps prod.inject] have "i \<noteq> j" by blast
  then show ?thesis unfolding True by (auto simp: canonical_def)
next
  case False
  then have "ineg S \<noteq> (0, 0, 0)" by simp
  with False show ?thesis by (simp add: canonical_def first_nonzero_positive_ineg)
qed

lemma canonical_self_mirror:
  assumes "(i, j, S) = (j, i, ineg S)"
  shows "canonical (i, j, S)"
proof -
  obtain sx sy sz where S: "S = (sx, sy, sz)" by (cases S)
  from assms[unfolded S ineg.simps prod.inject] have "i = j \<and> sx = 0 \<and> sy = 0 \<and> sz = 0" by arith
  then show ?thesis by (simp add: canonical_def S)
qed

lemma assemble_ijS:
  "assemble rows ''ijS'' =
     Inr [IntCol (map (\<lambda>(i, j, S, dr, dd). i) rows),
          IntCol (map (\<lambda>(i, j, S, dr, dd). j) rows),
          ShiftCol (map (\<lambda>(i, j, S, dr, dd). S) rows)]"
  by (simp add: quantity_def)

lemma zip_columns:
  "zip (map (\<lambda>(i, j, S, dr, dd). i) rows)
       (zip (map (\<lambda>(i, j, S, dr, dd). j) rows) (map (\<lambda>(i, j, S, dr, dd). S) rows)) = triples rows"
  by (induction rows) (auto simp: triples_def)

lemma zip_triples:
  "zip (map fst ts) (zip (map (\<lambda>(i, j, S). j) ts) (map (\<lambda>(i, j, S). S) ts)) = ts"
  by (induction ts) auto

lemma build_unfold:
  "build E self a =
     bind (neighbor_rows E a (PerAtom (cutoffs self)) (self_interaction self)) (\<lambda>rows.
     bind (first_neighbors (length (positions a)) (map fst (halve self (triples rows)))) (\<lambda>fn.
       Inr (self\<lparr> pbc_nl := Some (pbc a),
                  cell_nl := Some (cell a),
                  positions_nl := Some (positions a),
                  pair_first := Some (map fst (halve self (triples rows))),
                  pair_second := Some (map (\<lambda>(i, j, S). j) (halve self (triples rows))),
                  offset_vec := Some (map (\<lambda>(i, j, S). S) (halve self (triples rows))),
                  first_neigh := Some fn,
                  nupdates := nupdates self + 1 \<rparr>)))"
proof (cases "neighbor_rows E a (PerAtom (cutoffs self)) (self_interaction self)")
  case (Inl e)
  then show ?thesis by (simp add: build_def neighbor_list_def)
next
  case (Inr rows)
  then have "neighbor_list E ''ijS'' a (PerAtom (cutoffs self)) (self_interaction self) =
     Inr [IntCol (map (\<lambda>(i, j, S, dr, dd). i) rows),
          IntCol (map (\<lambda>(i, j, S, dr, dd). j) rows),
          ShiftCol (map (\<lambda>(i, j, S, dr, dd). S) rows)]"
    by (simp only: neighbor_list_def bind_Inr assemble_ijS)
  then show ?thesis
    unfolding build_def Inr
    by (simp only: bind_Inr list.case column.case zip_columns Let_def halve_def)
qed

text \<open>
  Claim C5. When \<open>build\<close> runs without \<open>bothways\<close>, the cached pairs are exactly the pairs
  of the full enumeration that satisfy the canonical rule (zero shift: \<open>i \<le> j\<close>; otherwise
  the first non-zero component of the shift is positive), with their multiplicities. The
  full enumeration contains the mirror image of each of its pairs, and of a pair and its
  mirror image exactly one is cached; a pair that is its own mirror image is cached.
\<close>

theorem build_half_list:
  assumes "\<not> bothways self" and "build E self a = Inr self'"
  shows "\<exists>rows pf ps ov.
     neighbor_rows E a (PerAtom (cutoffs self)) (self_interaction self) = Inr rows \<and>
     pair_first self' = Some pf \<and> pair_second self' = Some ps \<and> offset_vec self' = Some ov \<and>
     length pf = length ps \<and> length ps = length ov \<and>
     mset (zip pf (zip ps ov)) = mset (filter canonical (triples rows)) \<and>
     (\<forall>(i, j, S) \<in> set (triples rows).
        (j, i, ineg S) \<in> set (triples rows) \<and>
        (if (i, j, S) = (j, i, ineg S) then (i, j, S) \<in> set (zip pf (zip ps ov))
         else ((i, j, S) \<in> set (zip pf (zip ps ov))) \<noteq> ((j, i, ineg S) \<in> set (zip pf (zip ps ov)))))"
proof -
  from assms(2) obtain rows where nr: "neighbor_rows E a (PerAtom (cutoffs self)) (self_interaction self) = Inr rows"
    by (cases "neighbor_rows E a (PerAtom (cutoffs self)) (self_interaction self)") (auto simp: build_unfold)
  define kept where "kept = halve self (triples rows)"
  from assms(2) nr have s: "pair_first self' = Some (map fst kept)"
    "pair_second self' = Some (map (\<lambda>(i, j, S). j) kept)"
    "offset_vec self' = Some (map (\<lambda>(i, j, S). S) kept)"
    by (auto simp: build_unfold kept_def bind_def split: sum.splits)
  have z: "zip (map fst kept) (zip (map (\<lambda>(i, j, S). j) kept) (map (\<lambda>(i, j, S). S) kept)) = kept"
    by (rule zip_triples)
  have half: "filter half_mask (triples rows) = filter canonical (triples rows)"
    by (intro filter_cong refl half_mask_canonical)
  have m: "mset kept = mset (filter canonical (triples rows))"
    using assms(1) by (simp add: kept_def halve_def Let_def half)
  then have sk: "set kept = {t \<in> set (triples rows). canonical t}"
    by (metis mset_eq_setD set_filter)
  have mir: "(j, i, ineg S) \<in> set (triples rows)" if "(i, j, S) \<in> set (triples rows)" for i j S
  proof -
    from that obtain D d where "(i, j, S, D, d) \<in> set rows" by (auto simp: triples_def)
    from neighbor_rows_mirror[OF nr this] show ?thesis by (force simp: triples_def)
  qed
  have fin: "(j, i, ineg S) \<in> set (triples rows) \<and>
        (if (i, j, S) = (j, i, ineg S) then (i, j, S) \<in> set kept
         else ((i, j, S) \<in> set kept) \<noteq> ((j, i, ineg S) \<in> set kept))"
    if t: "(i, j, S) \<in> set (triples rows)" for i j S
  proof (cases "(i, j, S) = (j, i, ineg S)")
    case True
    from canonical_self_mirror[OF True] t have "(i, j, S) \<in> set kept" by (simp add: sk)
    with mir[OF t] show ?thesis unfolding if_P[OF True] by blast
  next
    case False
    from canonical_mirror[OF False] mir[OF t] t
    have "((i, j, S) \<in> set kept) \<noteq> ((j, i, ineg S) \<in> set kept)" by (simp add: sk)
    with mir[OF t] show ?thesis unfolding if_not_P[OF False] by blast
  qed
  have l: "length (map fst kept) = length (map (\<lambda>(i, j, S). j) kept)"
    "length (map (\<lambda>(i, j, S). j) kept) = length (map (\<lambda>(i, j, S). S) kept)" by simp_all
  show ?thesis
    apply (rule exI[where x=rows])
    apply (rule exI[where x="map fst kept"])
    apply (rule exI[where x="map (\<lambda>(i, j, S). j) kept"])
    apply (rule exI[where x="map (\<lambda>(i, j, S). S) kept"])
    unfolding z
    using nr s l m fin by blast
qed

lemma item_nth: "0 \<le> k \<Longrightarrow> k < int (length xs) \<Longrightarrow> item xs k = xs ! nat k"
  by (simp add: item_def get_item_def py_index_def)

lemma take_items_total:
  "\<forall>k\<in>set ks. 0 \<le> k \<and> k < int (length xs) \<Longrightarrow> take_items xs ks = Inr (map (item xs) ks)"
  by (induction ks) (auto simp: get_item_def py_index_def item_def)

lemma neighbor_rows_per_atom:
  assumes N: "positions a \<noteq> []" and len: "length rs = length (positions a)" and nn: "\<forall>r\<in>set rs. 0 \<le> r"
  shows "\<exists>B mx cand.
     bins_ok (nat (vol (geom_nbins E a (2 * Max (set rs))))) (map snd (geom_binned E a (2 * Max (set rs)))) B mx \<and>
     candidate_pairs (geom_nbins E a (2 * Max (set rs))) (geom_nd E a (2 * Max (set rs))) B mx = Inr cand \<and>
     neighbor_rows E a (PerAtom rs) si =
       Inr (filter (\<lambda>(i, j, S, dr, dd). dd < rs ! nat i + rs ! nat j)
              (post a si (2 * Max (set rs)) (map fst (geom_binned E a (2 * Max (set rs)))) cand))"
proof -
  let ?mc = "2 * Max (set rs)"
  have rne: "rs \<noteq> []" using N len by auto
  then have "Max (set rs) \<in> set rs" by (intro Max_in) auto
  with nn have mnn: "0 \<le> ?mc" by auto
  have mc: "max_cutoff_of (PerAtom rs) = Inr ?mc" using rne by (simp add: max_cutoff_of_def np_max_def)
  from neighbor_rows_total[OF N mc mnn, of E si]
  obtain B mx cand where
    ok: "bins_ok (nat (vol (geom_nbins E a ?mc))) (map snd (geom_binned E a ?mc)) B mx"
    and cp: "candidate_pairs (geom_nbins E a ?mc) (geom_nd E a ?mc) B mx = Inr cand"
    and nr: "neighbor_rows E a (PerAtom rs) si = cutoff_filter E a (PerAtom rs) (post a si ?mc (map fst (geom_binned E a ?mc)) cand)"
    by blast
  define rows where "rows = post a si ?mc (map fst (geom_binned E a ?mc)) cand"
  obtain nx ny nz where n: "geom_nbins E a ?mc = (nx, ny, nz)" by (cases "geom_nbins E a ?mc")
  have idx: "\<forall>(i, j, S) \<in> set cand. 0 \<le> i \<and> i < int (length rs) \<and> 0 \<le> j \<and> j < int (length rs)"
    using cand_indices[OF n ok[unfolded n vol_def prod.case] cp[unfolded n]] len by auto
  have ridx: "0 \<le> i \<and> i < int (length rs) \<and> 0 \<le> j \<and> j < int (length rs)"
    if "(i, j, S, D, d) \<in> set rows" for i j S D d
    using in_post_indices[OF idx that[unfolded rows_def]] by simp
  have t1: "take_items rs (map (\<lambda>(i, j, S, dr, dd). i) rows) = Inr (map (item rs) (map (\<lambda>(i, j, S, dr, dd). i) rows))"
    by (rule take_items_total) (use ridx in auto)
  have t2: "take_items rs (map (\<lambda>(i, j, S, dr, dd). j) rows) = Inr (map (item rs) (map (\<lambda>(i, j, S, dr, dd). j) rows))"
    by (rule take_items_total) (use ridx in auto)
  have "cutoff_filter E a (PerAtom rs) rows = Inr (filter (\<lambda>(i, j, S, dr, dd). dd < item rs i + item rs j) rows)"
    by (simp only: cutoff_filter_def cutoff.case t1 t2 bind_Inr per_atom_filter)
  also have "filter (\<lambda>(i, j, S, dr, dd). dd < item rs i + item rs j) rows
      = filter (\<lambda>(i, j, S, dr, dd). dd < rs ! nat i + rs ! nat j) rows"
    by (rule filter_cong[OF refl]) (use ridx in \<open>auto simp: item_nth\<close>)
  finally have "neighbor_rows E a (PerAtom rs) si =
       Inr (filter (\<lambda>(i, j, S, dr, dd). dd < rs ! nat i + rs ! nat j)
              (post a si ?mc (map fst (geom_binned E a ?mc)) cand))"
    using nr by (simp add: rows_def)
  with ok cp show ?thesis by (intro exI conjI)
qed

lemma post_sorted: "sorted (map fst (post a si mc cs cand))"
proof -
  have e: "map fst (map (with_distance a) xs) = map fst xs" for xs
    by (induction xs) (auto simp: with_distance_def Let_def)
  have "sorted (map fst (map (with_distance a) (sort_key fst (filter (keep_row si (pbc a)) (map (shift_row cs) cand)))))"
    unfolding e by (rule sorted_sort_key)
  then show ?thesis unfolding post_eq by (rule sorted_filter)
qed

lemma triples_fst: "map fst (triples rows) = map fst rows"
  by (induction rows) (auto simp: triples_def)

lemma build_total:
  assumes N: "positions a \<noteq> []" and len: "length (cutoffs self) = length (positions a)"
    and nn: "\<forall>r\<in>set (cutoffs self). 0 \<le> r" and ns: "\<not> sorted_nl self"
  shows "\<exists>self'. build E self a = Inr self'"
proof -
  let ?mc = "2 * Max (set (cutoffs self))"
  from neighbor_rows_per_atom[OF N len nn, of E "self_interaction self"]
  obtain B mx cand where
    ok: "bins_ok (nat (vol (geom_nbins E a ?mc))) (map snd (geom_binned E a ?mc)) B mx"
    and cp: "candidate_pairs (geom_nbins E a ?mc) (geom_nd E a ?mc) B mx = Inr cand"
    and nr: "neighbor_rows E a (PerAtom (cutoffs self)) (self_interaction self) =
       Inr (filter (\<lambda>(i, j, S, dr, dd). dd < cutoffs self ! nat i + cutoffs self ! nat j)
              (post a (self_interaction self) ?mc (map fst (geom_binned E a ?mc)) cand))"
    by blast
  define rows where "rows = filter (\<lambda>(i, j, S, dr, dd). dd < cutoffs self ! nat i + cutoffs self ! nat j)
              (post a (self_interaction self) ?mc (map fst (geom_binned E a ?mc)) cand)"
  obtain nx ny nz where n: "geom_nbins E a ?mc = (nx, ny, nz)" by (cases "geom_nbins E a ?mc")
  have idx: "\<forall>(i, j, S) \<in> set cand. 0 \<le> i \<and> i < int (length (positions a))"
    using cand_indices[OF n ok[unfolded n vol_def prod.case] cp[unfolded n]] by auto
  have ridx: "0 \<le> i \<and> i < int (length (positions a))" if "(i, j, S, D, d) \<in> set rows" for i j S D d
  proof -
    from that have "(i, j, S, D, d) \<in> set (post a (self_interaction self) ?mc (map fst (geom_binned E a ?mc)) cand)"
      by (simp add: rows_def)
    from in_post_indices[OF idx this] show ?thesis by simp
  qed
  have srt: "sorted (map fst rows)" unfolding rows_def by (intro sorted_filter post_sorted)
  define kept where "kept = halve self (triples rows)"
  have k: "kept = (if \<not> bothways self then filter half_mask (triples rows) else triples rows)"
    using ns by (simp add: kept_def halve_def)
  have ksrt: "sorted (map fst kept)"
    using srt unfolding k by (auto simp: triples_fst intro: sorted_filter)
  have "set kept \<subseteq> set (triples rows)" unfolding k by auto
  then have krng: "\<forall>x\<in>set (map fst kept). 0 \<le> x \<and> x < int (length (positions a))"
    using ridx by (fastforce simp: triples_def)
  have fn: "first_neighbors (length (positions a)) (map fst kept) = Inr (map (csr (map fst kept)) [0..<length (positions a) + 1])"
    by (rule first_neighbors_eq_csr[OF ksrt krng])
  show ?thesis
    unfolding build_unfold nr rows_def[symmetric] bind_Inr kept_def[symmetric] fn by blast
qed

theorem build_half_list_witness:
  "\<exists>self' rows pf ps ov.
     build ext_unit_cell (NeighborList_init [1, 1] (3 / 10) False True False) two_atoms = Inr self' \<and>
     neighbor_rows ext_unit_cell two_atoms (PerAtom (cutoffs (NeighborList_init [1, 1] (3 / 10) False True False)))
       (self_interaction (NeighborList_init [1, 1] (3 / 10) False True False)) = Inr rows \<and>
     pair_first self' = Some pf \<and> pair_second self' = Some ps \<and> offset_vec self' = Some ov \<and>
     length pf = length ps \<and> length ps = length ov \<and>
     mset (zip pf (zip ps ov)) = mset (filter canonical (triples rows)) \<and>
     (\<forall>(i, j, S) \<in> set (triples rows).
        (j, i, ineg S) \<in> set (triples rows) \<and>
        (if (i, j, S) = (j, i, ineg S) then (i, j, S) \<in> set (zip pf (zip ps ov))
         else ((i, j, S) \<in> set (zip pf (zip ps ov))) \<noteq> ((j, i, ineg S) \<in> set (zip pf (zip ps ov)))))"
proof -
  let ?s = "NeighborList_init [1, 1] (3 / 10) False True False"
  have h: "\<not> bothways ?s" "positions two_atoms \<noteq> []" "length (cutoffs ?s) = length (positions two_atoms)"
    "\<forall>r\<in>set (cutoffs ?s). 0 \<le> r" "\<not> sorted_nl ?s"
    by (simp_all add: NeighborList_init_def two_atoms_def)
  from build_total[OF h(2-5), of ext_unit_cell] obtain self' where
    b: "build ext_unit_cell ?s two_atoms = Inr self'" by blast
  from build_half_list[OF h(1) b] b show ?thesis by blast
qed


end
